theory Spec2Isabelle
  imports Complex_Main "HOL-Library.Monad_Syntax"
begin

section \<open>Polynomial curve fitting: the data model\<close>

text \<open>
  The program works on NumPy values. A value handed to the Evaluator or the Scorer is
  either a scalar or a one-dimensional array; floats are read as real numbers, so every
  statement below is about exact arithmetic (rounding is not modelled). An operation
  that NumPy refuses with \<^verbatim>\<open>ValueError\<close> (operands that do not broadcast
  together, matrix shapes that do not agree, a negative sample count or scale) returns
  \<open>None\<close>.
\<close>

datatype ndval = Scalar real | Arr "real list"

text \<open>The shape of a value: \<open>None\<close> for a scalar, the length for an array.\<close>

fun shape :: "ndval \<Rightarrow> nat option" where
  "shape (Scalar a) = None"
| "shape (Arr xs) = Some (length xs)"

text \<open>
  Elementwise binary operations with NumPy's broadcasting of scalars and
  one-dimensional arrays: a scalar is stretched over an array, two arrays need equal
  lengths unless one of them has length one.
\<close>

fun broadcast2 :: "(real \<Rightarrow> real \<Rightarrow> real) \<Rightarrow> ndval \<Rightarrow> ndval \<Rightarrow> ndval option" where
  "broadcast2 f (Scalar a) (Scalar b) = Some (Scalar (f a b))"
| "broadcast2 f (Scalar a) (Arr ys) = Some (Arr (map (f a) ys))"
| "broadcast2 f (Arr xs) (Scalar b) = Some (Arr (map (\<lambda>a. f a b) xs))"
| "broadcast2 f (Arr xs) (Arr ys) =
     (if length xs = length ys then Some (Arr (map2 f xs ys))
      else if length xs = 1 then Some (Arr (map (f (hd xs)) ys))
      else if length ys = 1 then Some (Arr (map (\<lambda>a. f a (hd ys)) xs))
      else None)"

definition np_add :: "ndval \<Rightarrow> ndval \<Rightarrow> ndval option" where
  "np_add = broadcast2 (+)"

definition np_subtract :: "ndval \<Rightarrow> ndval \<Rightarrow> ndval option" where
  "np_subtract = broadcast2 (-)"

definition np_multiply :: "ndval \<Rightarrow> ndval \<Rightarrow> ndval option" where
  "np_multiply = broadcast2 (*)"

text \<open>\<^verbatim>\<open>x ** i\<close> with a non-negative integer exponent, elementwise.\<close>

fun np_power :: "ndval \<Rightarrow> nat \<Rightarrow> ndval" where
  "np_power (Scalar a) i = Scalar (a ^ i)"
| "np_power (Arr xs) i = Arr (map (\<lambda>a. a ^ i) xs)"

text \<open>\<^verbatim>\<open>np.sum\<close>: the sum of all elements, a scalar.\<close>

fun np_sum :: "ndval \<Rightarrow> real" where
  "np_sum (Scalar a) = a"
| "np_sum (Arr xs) = sum_list xs"

section \<open>The Evaluator\<close>

text \<open>
  Python's builtin \<^verbatim>\<open>sum\<close> starts from the integer 0 and adds the items from
  left to right; an item or an addition that raises ends the whole sum.
\<close>

fun py_sum :: "ndval \<Rightarrow> ndval option list \<Rightarrow> ndval option" where
  "py_sum acc [] = Some acc"
| "py_sum acc (t # ts) =
     (case t of
        None \<Rightarrow> None
      | Some v \<Rightarrow> (case np_add acc v of None \<Rightarrow> None | Some acc' \<Rightarrow> py_sum acc' ts))"

text \<open>
  \<^verbatim>\<open>return sum(w[i] * x**i for i in range(len(w)))\<close>: the coefficients \<open>w\<close> are a
  one-dimensional array, so \<open>w[i]\<close> is a scalar.
\<close>

definition polynomial :: "ndval \<Rightarrow> real list \<Rightarrow> ndval option" where
  "polynomial x w =
     py_sum (Scalar 0)
       (map (\<lambda>i. np_multiply (Scalar (w ! i)) (np_power x i)) [0..<length w])"

text \<open>The specification's reading: the value of the polynomial at one point.\<close>

definition poly_eval :: "real list \<Rightarrow> real \<Rightarrow> real" where
  "poly_eval w a = (\<Sum>i<length w. w ! i * a ^ i)"

text \<open>Applying a function pointwise, keeping the shape.\<close>

fun nd_map :: "(real \<Rightarrow> real) \<Rightarrow> ndval \<Rightarrow> ndval" where
  "nd_map f (Scalar a) = Scalar (f a)"
| "nd_map f (Arr xs) = Arr (map f xs)"

section \<open>The Scorer\<close>

text \<open>\<^verbatim>\<open>return np.sum((y - y_pred)**2) / 2\<close>\<close>

definition mean_squared_error :: "ndval \<Rightarrow> ndval \<Rightarrow> real option" where
  "mean_squared_error y y_pred =
     (case np_subtract y y_pred of
        None \<Rightarrow> None
      | Some d \<Rightarrow> Some (np_sum (np_power d 2) / 2))"

text \<open>The specification's reading: half the sum of the squared differences.\<close>

definition half_sum_of_squares :: "real list \<Rightarrow> real list \<Rightarrow> real" where
  "half_sum_of_squares ys ps = (\<Sum>i<length ys. (ys ! i - ps ! i)\<^sup>2) / 2"

text \<open>The mean of the squared differences, which the function's name suggests.\<close>

definition mean_of_squares :: "real list \<Rightarrow> real list \<Rightarrow> real" where
  "mean_of_squares ys ps = (\<Sum>i<length ys. (ys ! i - ps ! i)\<^sup>2) / real (length ys)"

section \<open>The Sampler\<close>

text \<open>
  NumPy is not part of the repository; its functions are modelled from its
  documented behaviour. \<^verbatim>\<open>np.linspace(start, stop, num)\<close> with the default
  \<^verbatim>\<open>endpoint=True\<close>: the points \<open>i * step + start\<close> with
  \<open>step = (stop - start) / (num - 1)\<close>, the last one set to \<open>stop\<close> when there is
  more than one; a single point is \<open>start\<close>; a negative \<open>num\<close> is refused.
\<close>

definition np_linspace :: "real \<Rightarrow> real \<Rightarrow> int \<Rightarrow> real list option" where
  "np_linspace start stop num =
     (if num < 0 then None
      else
        let n = nat num;
            dv = n - 1;
            delta = stop - start;
            y = map (\<lambda>i. if 0 < dv then real i * (delta / real dv) + start
                          else real i * delta + start) [0..<n]
        in Some (if 1 < n then y[n - 1 := stop] else y))"

text \<open>
  \<^verbatim>\<open>np.random.normal(loc, scale, size)\<close>: \<open>loc + scale * z\<close> for each of \<open>size\<close>
  standard normal draws \<open>z\<close>. The draws of the global generator are a parameter:
  \<open>rng i\<close> is the \<open>i\<close>-th draw. A negative scale or size is refused.
\<close>

definition np_random_normal :: "(nat \<Rightarrow> real) \<Rightarrow> real \<Rightarrow> real \<Rightarrow> int \<Rightarrow> real list option" where
  "np_random_normal rng loc scale count =
     (if scale < 0 \<or> count < 0 then None
      else Some (map (\<lambda>i. loc + scale * rng i) [0..<nat count]))"

definition np_sin :: "ndval \<Rightarrow> ndval" where
  "np_sin = nd_map sin"

text \<open>
  \<^verbatim>\<open>x = np.linspace(0, 1, num_points)\<close>,
  \<^verbatim>\<open>y = np.sin(2 * np.pi * x) + np.random.normal(0, noise_level, num_points)\<close>,
  \<^verbatim>\<open>return x, y\<close>
\<close>

definition generate_noisy_sin_points :: "(nat \<Rightarrow> real) \<Rightarrow> int \<Rightarrow> real \<Rightarrow> (ndval \<times> ndval) option" where
  "generate_noisy_sin_points rng num_points noise_level =
     do {
       x \<leftarrow> np_linspace 0 1 num_points;
       noise \<leftarrow> np_random_normal rng 0 noise_level num_points;
       angle \<leftarrow> np_multiply (Scalar (2 * pi)) (Arr x);
       y \<leftarrow> np_add (np_sin angle) (Arr noise);
       Some (Arr x, y)
     }"

section \<open>The Fitter\<close>

text \<open>
  A two-dimensional array: its shape and its rows. The shape is kept beside the rows
  since an array with no rows still has a number of columns (the design matrix of an
  empty sample).
\<close>

record matrix =
  nrows :: nat
  ncols :: nat
  entries :: "real list list"

definition mk_matrix :: "nat \<Rightarrow> nat \<Rightarrow> (nat \<Rightarrow> nat \<Rightarrow> real) \<Rightarrow> matrix" where
  "mk_matrix r c f =
     \<lparr>nrows = r, ncols = c, entries = map (\<lambda>i. map (\<lambda>j. f i j) [0..<c]) [0..<r]\<rparr>"

definition entry :: "matrix \<Rightarrow> nat \<Rightarrow> nat \<Rightarrow> real" where
  "entry M i j = entries M ! i ! j"

definition well_formed :: "matrix \<Rightarrow> bool" where
  "well_formed M \<longleftrightarrow>
     length (entries M) = nrows M \<and> list_all (\<lambda>r. length r = ncols M) (entries M)"

text \<open>
  \<^verbatim>\<open>np.vander(x, n, increasing=True)\<close>: row \<open>i\<close> holds the powers
  \<open>x[i]^0, ..., x[i]^(n-1)\<close>.
\<close>

definition np_vander :: "real list \<Rightarrow> nat \<Rightarrow> matrix" where
  "np_vander x n = mk_matrix (length x) n (\<lambda>i j. x ! i ^ j)"

text \<open>\<^verbatim>\<open>X.T\<close>\<close>

definition np_transpose :: "matrix \<Rightarrow> matrix" where
  "np_transpose M = mk_matrix (ncols M) (nrows M) (\<lambda>i j. entry M j i)"

text \<open>
  The operator \<^verbatim>\<open>@\<close>: the matrix product of two two-dimensional arrays, and of a
  two-dimensional array with a one-dimensional one. NumPy refuses operands whose
  inner dimensions differ.
\<close>

definition mat_mul :: "matrix \<Rightarrow> matrix \<Rightarrow> matrix" where
  "mat_mul A B = mk_matrix (nrows A) (ncols B) (\<lambda>i j. \<Sum>k<ncols A. entry A i k * entry B k j)"

definition np_matmul :: "matrix \<Rightarrow> matrix \<Rightarrow> matrix option" where
  "np_matmul A B = (if ncols A = nrows B then Some (mat_mul A B) else None)"

definition np_matvec :: "matrix \<Rightarrow> real list \<Rightarrow> real list option" where
  "np_matvec A v =
     (if ncols A = length v
      then Some (map (\<lambda>i. \<Sum>k<ncols A. entry A i k * v ! k) [0..<nrows A])
      else None)"

text \<open>
  \<^verbatim>\<open>np.linalg.pinv\<close> is NumPy's, not the repository's: it is a parameter \<open>pinv\<close>
  of the Fitter. The Moore-Penrose pseudoinverse of a matrix \<open>A\<close> is the matrix \<open>P\<close> of
  the transposed shape with \<open>A P A = A\<close>, \<open>P A P = P\<close> and both \<open>A P\<close> and \<open>P A\<close>
  symmetric. NumPy's function returns it unless it cuts a singular value off (see
  the section on NumPy's pseudoinverse below); floating-point rounding is not
  modelled.
\<close>

definition moore_penrose :: "matrix \<Rightarrow> matrix \<Rightarrow> bool" where
  "moore_penrose A P \<longleftrightarrow>
     well_formed P \<and> nrows P = ncols A \<and> ncols P = nrows A
     \<and> mat_mul (mat_mul A P) A = A
     \<and> mat_mul (mat_mul P A) P = P
     \<and> np_transpose (mat_mul A P) = mat_mul A P
     \<and> np_transpose (mat_mul P A) = mat_mul P A"

text \<open>
  \<^verbatim>\<open>X = np.vander(x, degree + 1, increasing=True)\<close>,
  \<^verbatim>\<open>w_star = np.linalg.pinv(X.T @ X) @ X.T @ y\<close> (the operator associates to the
  left), \<^verbatim>\<open>return w_star\<close>. The degree is a natural number.
\<close>

definition polynomial_regression ::
  "(matrix \<Rightarrow> matrix) \<Rightarrow> real list \<Rightarrow> real list \<Rightarrow> nat \<Rightarrow> real list option" where
  "polynomial_regression pinv x y degree =
     do {
       let X = np_vander x (degree + 1);
       XtX \<leftarrow> np_matmul (np_transpose X) X;
       PXt \<leftarrow> np_matmul (pinv XtX) (np_transpose X);
       np_matvec PXt y
     }"

text \<open>The matrix \<^verbatim>\<open>X.T @ X\<close> that the Fitter hands to \<open>pinv\<close>.\<close>

definition normal_matrix :: "real list \<Rightarrow> nat \<Rightarrow> matrix" where
  "normal_matrix x degree =
     mat_mul (np_transpose (np_vander x (degree + 1))) (np_vander x (degree + 1))"

section \<open>The driver's loop body\<close>

text \<open>
  For each degree \<open>i\<close> the driver runs
  \<^verbatim>\<open>w_star = polynomial_regression(x, y, i)\<close>,
  \<^verbatim>\<open>y_pred = polynomial(x, w_star)\<close>,
  \<^verbatim>\<open>error_value = mean_squared_error(y, y_pred)\<close>.
\<close>

definition fit_error :: "(matrix \<Rightarrow> matrix) \<Rightarrow> real list \<Rightarrow> real list \<Rightarrow> nat \<Rightarrow> real option" where
  "fit_error pinv x y i =
     do {
       w_star \<leftarrow> polynomial_regression pinv x y i;
       y_pred \<leftarrow> polynomial (Arr x) w_star;
       mean_squared_error (Arr y) y_pred
     }"

section \<open>Least squares, by indices\<close>

text \<open>
  The specification's reading of the Fitter: the sum of the squared residuals of a
  coefficient vector \<open>v\<close> on the sample \<open>(x, y)\<close>.
\<close>

definition sum_squared_residuals :: "real list \<Rightarrow> real list \<Rightarrow> real list \<Rightarrow> real" where
  "sum_squared_residuals x y v = (\<Sum>k<length x. (y ! k - (\<Sum>i<length v. v ! i * x ! k ^ i))\<^sup>2)"

text \<open>
  The algebra is done on entries: a design matrix \<open>X\<close> with \<open>N\<close> rows and \<open>m\<close> columns
  is a function of two indices, the normal matrix is \<open>gram N X\<close>, and the Fitter's
  result for a pseudoinverse \<open>P\<close> of it is \<open>fitted N m P X y\<close>. Of the four
  Moore-Penrose equations the proofs use the first, \<open>A P A = A\<close>, and the fourth, the
  symmetry of \<open>P A\<close>.
\<close>

definition gram :: "nat \<Rightarrow> (nat \<Rightarrow> nat \<Rightarrow> real) \<Rightarrow> nat \<Rightarrow> nat \<Rightarrow> real" where
  "gram N X i l = (\<Sum>k<N. X k i * X k l)"

definition penrose1 :: "nat \<Rightarrow> (nat \<Rightarrow> nat \<Rightarrow> real) \<Rightarrow> (nat \<Rightarrow> nat \<Rightarrow> real) \<Rightarrow> bool" where
  "penrose1 m A P \<longleftrightarrow>
     (\<forall>i<m. \<forall>l<m. (\<Sum>a<m. (\<Sum>b<m. A i b * P b a) * A a l) = A i l)"

definition penrose4 :: "nat \<Rightarrow> (nat \<Rightarrow> nat \<Rightarrow> real) \<Rightarrow> (nat \<Rightarrow> nat \<Rightarrow> real) \<Rightarrow> bool" where
  "penrose4 m A P \<longleftrightarrow>
     (\<forall>i<m. \<forall>l<m. (\<Sum>a<m. P i a * A a l) = (\<Sum>a<m. P l a * A a i))"

definition fitted ::
  "nat \<Rightarrow> nat \<Rightarrow> (nat \<Rightarrow> nat \<Rightarrow> real) \<Rightarrow> (nat \<Rightarrow> nat \<Rightarrow> real) \<Rightarrow> (nat \<Rightarrow> real) \<Rightarrow> nat \<Rightarrow> real" where
  "fitted N m P X y i = (\<Sum>k<N. (\<Sum>a<m. P i a * X k a) * y k)"

definition residual ::
  "nat \<Rightarrow> (nat \<Rightarrow> nat \<Rightarrow> real) \<Rightarrow> (nat \<Rightarrow> real) \<Rightarrow> (nat \<Rightarrow> real) \<Rightarrow> nat \<Rightarrow> real" where
  "residual m X y v k = y k - (\<Sum>i<m. X k i * v i)"

definition sum_sq :: "nat \<Rightarrow> (nat \<Rightarrow> real) \<Rightarrow> real" where
  "sum_sq n f = (\<Sum>k<n. (f k)\<^sup>2)"

section \<open>NumPy's pseudoinverse\<close>

text \<open>
  What \<^verbatim>\<open>np.linalg.pinv(a)\<close> computes, by NumPy's documentation: from a singular value
  decomposition of \<open>a\<close> it sets the singular values that are less than or equal to
  \<open>rcond\<close> times the largest one to zero, inverts the others and multiplies the
  factors back in the transposed order; \<open>rcond\<close> is \<open>1e-15\<close> unless the caller gives
  another value, and the Fitter gives none. The Fitter only hands it a normal matrix
  \<open>X\<^sup>T X\<close>, which is symmetric and positive semidefinite, so its singular value
  decomposition is a decomposition \<open>\<Sum> s\<^sub>j q\<^sub>j q\<^sub>j\<^sup>T / (q\<^sub>j \<cdot> q\<^sub>j)\<close> into pairwise
  orthogonal eigenvectors \<open>q\<^sub>j\<close> with eigenvalues \<open>s\<^sub>j\<close> (the non-zero singular
  values; the others contribute nothing), and the result is
  \<open>\<Sum> t\<^sub>j q\<^sub>j q\<^sub>j\<^sup>T / (q\<^sub>j \<cdot> q\<^sub>j)\<close> with \<open>t\<^sub>j = 1 / s\<^sub>j\<close> for the singular values above
  the cutoff and \<open>t\<^sub>j = 0\<close> for the others. The decomposition itself is not computed
  here: it is an argument, and \<open>spectral_decomposition\<close> checks it.
\<close>

definition dot :: "real list \<Rightarrow> real list \<Rightarrow> real" where
  "dot q r = sum_list (map2 (*) q r)"

definition spectral_matrix :: "nat \<Rightarrow> (real \<times> real list) list \<Rightarrow> matrix" where
  "spectral_matrix n sp =
     mk_matrix n n (\<lambda>i j. sum_list (map (\<lambda>(s, q). s * (q ! i * q ! j / dot q q)) sp))"

definition spectral_decomposition :: "matrix \<Rightarrow> (real \<times> real list) list \<Rightarrow> bool" where
  "spectral_decomposition A sp \<longleftrightarrow>
     ncols A = nrows A \<and> A = spectral_matrix (nrows A) sp
     \<and> list_all (\<lambda>(s, q). 0 < s \<and> length q = nrows A \<and> dot q q \<noteq> 0) sp
     \<and> list_all (\<lambda>j. list_all (\<lambda>k. j = k \<or> dot (snd (sp ! j)) (snd (sp ! k)) = 0)
          [0..<length sp]) [0..<length sp]"

definition np_linalg_pinv :: "real \<Rightarrow> matrix \<Rightarrow> (real \<times> real list) list \<Rightarrow> matrix" where
  "np_linalg_pinv rcond A sp =
     (let cutoff = rcond * fold max (map fst sp) 0
      in spectral_matrix (nrows A) (map (\<lambda>(s, q). (if cutoff < s then 1 / s else 0, q)) sp))"

definition default_rcond :: real where
  "default_rcond = 1 / 10 ^ 15"

text \<open>No singular value is at or below the cutoff.\<close>

definition singular_values_kept :: "real \<Rightarrow> (real \<times> real list) list \<Rightarrow> bool" where
  "singular_values_kept rcond sp \<longleftrightarrow>
     list_all (\<lambda>(s, q). rcond * fold max (map fst sp) 0 < s) sp"

text \<open>The entries of a spectral matrix whose eigenvalues are mapped by \<open>g\<close>.\<close>

definition spectral_entry ::
  "(real \<times> real list) list \<Rightarrow> (real \<Rightarrow> real) \<Rightarrow> nat \<Rightarrow> nat \<Rightarrow> real" where
  "spectral_entry sp g i l =
     (\<Sum>j<length sp. g (fst (sp ! j))
        * (snd (sp ! j) ! i * snd (sp ! j) ! l / dot (snd (sp ! j)) (snd (sp ! j))))"

section \<open>Pseudoinverses for concrete samples\<close>

text \<open>\<^verbatim>\<open>np.linalg.pinv\<close> with its default cutoff, on a matrix whose decomposition is \<open>sp\<close>.\<close>

definition pinv_with :: "(real \<times> real list) list \<Rightarrow> matrix \<Rightarrow> matrix" where
  "pinv_with sp A = np_linalg_pinv default_rcond A sp"

text \<open>The identity matrix and the squared Frobenius norm, the sum of the squared entries.\<close>

definition identity_matrix :: "nat \<Rightarrow> matrix" where
  "identity_matrix n = mk_matrix n n (\<lambda>i j. if i = j then 1 else 0)"

definition frobenius :: "matrix \<Rightarrow> real" where
  "frobenius M = (\<Sum>i<nrows M. \<Sum>j<ncols M. (entry M i j)\<^sup>2)"

section \<open>The driver's sample\<close>

text \<open>
  The driver calls \<^verbatim>\<open>generate_noisy_sin_points(10)\<close>, so its \<open>x\<close> values are
  \<^verbatim>\<open>np.linspace(0, 1, 10)\<close>, the ten points \<open>i / 9\<close>.
\<close>

definition driver_grid :: "real list" where
  "driver_grid = [0, 1 / 9, 2 / 9, 3 / 9, 4 / 9, 5 / 9, 6 / 9, 7 / 9, 8 / 9, 1]"

text \<open>
  The normal matrix of the degree-9 fit on these points, entry \<open>(i, l)\<close> being the sum
  of the powers \<open>(k / 9) ^ (i + l)\<close>, written out.
\<close>

definition driver_normal_matrix :: matrix where
  "driver_normal_matrix = \<lparr>nrows = 10, ncols = 10, entries =
     [[10, 5, 95 / 27, 25 / 9, 5111 / 2187, 4475 / 2187, 326135 / 177147, 299275 / 177147,
       22577111 / 14348907, 2363395 / 1594323],
      [5, 95 / 27, 25 / 9, 5111 / 2187, 4475 / 2187, 326135 / 177147, 299275 / 177147,
       22577111 / 14348907, 2363395 / 1594323, 1638113975 / 1162261467],
      [95 / 27, 25 / 9, 5111 / 2187, 4475 / 2187, 326135 / 177147, 299275 / 177147,
       22577111 / 14348907, 2363395 / 1594323, 1638113975 / 1162261467,
       1569048875 / 1162261467],
      [25 / 9, 5111 / 2187, 4475 / 2187, 326135 / 177147, 299275 / 177147,
       22577111 / 14348907, 2363395 / 1594323, 1638113975 / 1162261467,
       1569048875 / 1162261467, 122476178711 / 94143178827],
      [5111 / 2187, 4475 / 2187, 326135 / 177147, 299275 / 177147, 22577111 / 14348907,
       2363395 / 1594323, 1638113975 / 1162261467, 1569048875 / 1162261467,
       122476178711 / 94143178827, 118624472635 / 94143178827],
      [4475 / 2187, 326135 / 177147, 299275 / 177147, 22577111 / 14348907,
       2363395 / 1594323, 1638113975 / 1162261467, 1569048875 / 1162261467,
       122476178711 / 94143178827, 118624472635 / 94143178827,
       9345934317815 / 7625597484987],
      [326135 / 177147, 299275 / 177147, 22577111 / 14348907, 2363395 / 1594323,
       1638113975 / 1162261467, 1569048875 / 1162261467, 122476178711 / 94143178827,
       118624472635 / 94143178827, 9345934317815 / 7625597484987,
       3041047609625 / 2541865828329],
      [299275 / 177147, 22577111 / 14348907, 2363395 / 1594323, 1638113975 / 1162261467,
       1569048875 / 1162261467, 122476178711 / 94143178827, 118624472635 / 94143178827,
       9345934317815 / 7625597484987, 3041047609625 / 2541865828329,
       723568710669911 / 617673396283947],
      [22577111 / 14348907, 2363395 / 1594323, 1638113975 / 1162261467,
       1569048875 / 1162261467, 122476178711 / 94143178827, 118624472635 / 94143178827,
       9345934317815 / 7625597484987, 3041047609625 / 2541865828329,
       723568710669911 / 617673396283947, 710345145754715 / 617673396283947],
      [2363395 / 1594323, 1638113975 / 1162261467, 1569048875 / 1162261467,
       122476178711 / 94143178827, 118624472635 / 94143178827,
       9345934317815 / 7625597484987, 3041047609625 / 2541865828329,
       723568710669911 / 617673396283947, 710345145754715 / 617673396283947,
       56614297055161655 / 50031545098999707]]\<rparr>"

text \<open>Its inverse, written out.\<close>

definition driver_inverse :: matrix where
  "driver_inverse = \<lparr>nrows = 10, ncols = 10, entries =
     [[1, - 7129 / 280, 58635 / 224, - 40707 / 28, 623295 / 128, - 6589431 / 640,
       885735 / 64, - 5137263 / 448, 4782969 / 896, - 4782969 / 4480],
      [- 7129 / 280, 9678073141 / 39200, - 17587866285 / 3136, 1559828901609 / 31360,
       - 412829547075 / 1792, 27761446999737 / 44800, - 898949634759 / 896,
       15108054348123 / 15680, - 31696549027209 / 62720, 34952153404563 / 313600],
      [58635 / 224, - 17587866285 / 3136, 3209696851779 / 25088,
       - 142763076859887 / 125440, 1893763303923843 / 358400, - 204159474701919 / 14336,
       827707945867407 / 35840, - 5571826167327453 / 250880, 29257302664492389 / 2508800,
       - 258346833183945 / 100352],
      [- 40707 / 28, 1559828901609 / 31360, - 142763076859887 / 125440,
       6366810699897219 / 627200, - 96745186455489 / 2048, 130632078638061 / 1024,
       - 7427253536789229 / 35840, 125176946446284291 / 627200,
       - 10529926561835109 / 100352, 5817562324888347 / 250880],
      [623295 / 128, - 412829547075 / 1792, 1893763303923843 / 358400,
       - 96745186455489 / 2048, 9023300813056959 / 40960, - 24413965430824827 / 40960,
       99314101918370547 / 102400, - 26819853201050481 / 28672,
       141183502244776233 / 286720, - 4462062405450507 / 40960],
      [- 6589431 / 640, 27761446999737 / 44800, - 204159474701919 / 14336,
       130632078638061 / 1024, - 24413965430824827 / 40960, 165425413849015671 / 102400,
       - 10783663736900769 / 4096, 91128734774245377 / 35840,
       - 384232486766901201 / 286720, 30390788431625193 / 102400],
      [885735 / 64, - 898949634759 / 896, 827707945867407 / 35840,
       - 7427253536789229 / 35840, 99314101918370547 / 102400, - 10783663736900769 / 4096,
       43996632604886511 / 10240, - 59562474999206751 / 14336,
       1571353494548876181 / 716800, - 13933661182290135 / 28672],
      [- 5137263 / 448, 15108054348123 / 15680, - 5571826167327453 / 250880,
       125176946446284291 / 627200, - 26819853201050481 / 28672,
       91128734774245377 / 35840, - 59562474999206751 / 14336,
       5045416857785212623 / 1254400, - 426370032178078131 / 200704,
       7390898540171289 / 15680],
      [4782969 / 896, - 31696549027209 / 62720, 29257302664492389 / 2508800,
       - 10529926561835109 / 100352, 141183502244776233 / 286720,
       - 384232486766901201 / 286720, 1571353494548876181 / 716800,
       - 426370032178078131 / 200704, 2253981730209942447 / 2007040,
       - 500521342122091719 / 2007040],
      [- 4782969 / 4480, 34952153404563 / 313600, - 258346833183945 / 100352,
       5817562324888347 / 250880, - 4462062405450507 / 40960, 30390788431625193 / 102400,
       - 13933661182290135 / 28672, 7390898540171289 / 15680,
       - 500521342122091719 / 2007040, 55613482458010191 / 1003520]]\<rparr>"


section \<open>Sums over lists and index ranges\<close>

lemma sum_list_as_index_sum:
  fixes xs :: "real list"
  shows "sum_list xs = (\<Sum>i<length xs. xs ! i)"
  by (simp add: sum_list_sum_nth atLeast0LessThan)

lemma sum_list_map_as_index_sum:
  fixes f :: "'a \<Rightarrow> real"
  shows "sum_list (map f xs) = (\<Sum>i<length xs. f (xs ! i))"
proof -
  have "sum_list (map f xs) = (\<Sum>i<length (map f xs). map f xs ! i)"
    by (rule sum_list_as_index_sum)
  also have "\<dots> = (\<Sum>i<length xs. f (xs ! i))"
    by (rule sum.cong) simp_all
  finally show ?thesis .
qed

lemma sum_list_map2_as_index_sum:
  fixes f :: "'a \<Rightarrow> 'b \<Rightarrow> real"
  assumes "length xs = length ys"
  shows "sum_list (map2 f xs ys) = (\<Sum>i<length xs. f (xs ! i) (ys ! i))"
proof -
  have "sum_list (map2 f xs ys) = (\<Sum>i<length (map2 f xs ys). map2 f xs ys ! i)"
    by (rule sum_list_as_index_sum)
  also have "\<dots> = (\<Sum>i<length xs. f (xs ! i) (ys ! i))"
    using assms by (intro sum.cong) simp_all
  finally show ?thesis .
qed

section \<open>The Evaluator computes the power sum\<close>

text \<open>
  The loop invariant of the builtin sum inside \<open>polynomial\<close>: from an accumulator that
  already has the shape of \<open>x\<close>, adding the terms of a list of indices adds their
  power sum pointwise.
\<close>

lemma py_sum_terms_scalar:
  "py_sum (Scalar s) (map (\<lambda>i. np_multiply (Scalar (w ! i)) (np_power (Scalar a) i)) js)
     = Some (Scalar (s + sum_list (map (\<lambda>i. w ! i * a ^ i) js)))"
  by (induction js arbitrary: s) (simp_all add: np_multiply_def np_add_def add.assoc)

lemma map2_add_pointwise:
  "map2 (+) (map g xs) (map h xs) = map (\<lambda>a. g a + h a) (xs :: real list)"
  by (induction xs) simp_all

lemma py_sum_terms_array:
  "py_sum (Arr (map g xs))
       (map (\<lambda>i. np_multiply (Scalar (w ! i)) (np_power (Arr xs) i)) js)
     = Some (Arr (map (\<lambda>a. g a + sum_list (map (\<lambda>i. w ! i * a ^ i) js)) xs))"
proof (induction js arbitrary: g)
  case Nil
  then show ?case by simp
next
  case (Cons j js)
  have "py_sum (Arr (map g xs))
       (map (\<lambda>i. np_multiply (Scalar (w ! i)) (np_power (Arr xs) i)) (j # js))
     = py_sum (Arr (map (\<lambda>a. g a + w ! j * a ^ j) xs))
       (map (\<lambda>i. np_multiply (Scalar (w ! i)) (np_power (Arr xs) i)) js)"
    by (simp add: np_multiply_def np_add_def o_def map2_add_pointwise)
  also have "\<dots> = Some (Arr (map (\<lambda>a. (g a + w ! j * a ^ j)
      + sum_list (map (\<lambda>i. w ! i * a ^ i) js)) xs))"
    by (rule Cons.IH)
  finally show ?case by (simp add: add.assoc)
qed

lemma poly_eval_sum_list:
  "poly_eval w a = sum_list (map (\<lambda>i. w ! i * a ^ i) [0..<length w])"
  by (simp add: poly_eval_def interv_sum_list_conv_sum_set_nat atLeast0LessThan)

lemma polynomial_scalar:
  assumes "w \<noteq> []"
  shows "polynomial (Scalar a) w = Some (Scalar (poly_eval w a))"
  unfolding polynomial_def py_sum_terms_scalar poly_eval_sum_list by simp

lemma polynomial_array:
  assumes "w \<noteq> []"
  shows "polynomial (Arr xs) w = Some (Arr (map (poly_eval w) xs))"
proof -
  obtain n where n: "length w = Suc n"
    using assms by (cases w) simp_all
  have first: "[0..<length w] = 0 # [Suc 0..<Suc n]"
    by (simp add: n upt_conv_Cons)
  have "polynomial (Arr xs) w = py_sum (Arr (map (\<lambda>a. w ! 0 * a ^ 0) xs))
       (map (\<lambda>i. np_multiply (Scalar (w ! i)) (np_power (Arr xs) i)) [Suc 0..<Suc n])"
    unfolding polynomial_def first
    by (simp add: np_multiply_def np_add_def o_def)
  also have "\<dots> = Some (Arr (map (\<lambda>a. w ! 0 * a ^ 0
      + sum_list (map (\<lambda>i. w ! i * a ^ i) [Suc 0..<Suc n])) xs))"
    by (rule py_sum_terms_array)
  also have "\<dots> = Some (Arr (map (poly_eval w) xs))"
    unfolding poly_eval_sum_list first by simp
  finally show ?thesis .
qed

text \<open>
  C3: for a scalar or a sequence \<open>x\<close> and a non-empty coefficient vector \<open>w\<close>, the
  Evaluator returns the power sum of \<open>w[i] * x^i\<close> over \<open>i = 0..len(w)-1\<close> at every
  point of \<open>x\<close>, in the shape of \<open>x\<close>. The model of \<open>polynomial\<close> adds the terms one
  after the other, as the source does; no Horner scheme is involved.
\<close>

theorem polynomial_power_sum:
  assumes "w \<noteq> []"
  shows "polynomial x w = Some (nd_map (\<lambda>a. \<Sum>i<length w. w ! i * a ^ i) x)
    \<and> shape (nd_map (\<lambda>a. \<Sum>i<length w. w ! i * a ^ i) x) = shape x"
proof (cases x)
  case (Scalar a)
  then show ?thesis
    using polynomial_scalar [OF assms, of a] by (simp add: poly_eval_def)
next
  case (Arr xs)
  have "map (poly_eval w) xs = map (\<lambda>a. \<Sum>i<length w. w ! i * a ^ i) xs"
    by (simp add: poly_eval_def)
  then show ?thesis
    using Arr polynomial_array [OF assms, of xs] by simp
qed

theorem polynomial_power_sum_witness:
  "[1, 2, 3 :: real] \<noteq> []
   \<and> polynomial (Arr [0, 1, 2]) [1, 2, 3] = Some (Arr [1, 6, 17])
   \<and> polynomial (Scalar 2) [1, 2, 3] = Some (Scalar 17)"
  using polynomial_power_sum [of "[1, 2, 3]" "Arr [0, 1, 2]"]
    polynomial_power_sum [of "[1, 2, 3]" "Scalar 2"]
  by (simp add: eval_nat_numeral)

text \<open>
  C10: with an empty coefficient vector the Evaluator returns the scalar 0 whatever
  \<open>x\<close> is, also for a sequence \<open>x\<close>: the start value of the builtin sum is returned
  as it is.
\<close>

theorem polynomial_empty_coefficients: "polynomial x [] = Some (Scalar 0)"
  by (simp add: polynomial_def)

section \<open>The Scorer computes half the sum of squares\<close>

lemma squares_of_differences_swap:
  "np_sum (np_power (Arr (map2 (-) xs ys)) 2) = np_sum (np_power (Arr (map2 (-) ys xs)) 2)"
proof (induction xs arbitrary: ys)
  case Nil
  then show ?case by simp
next
  case (Cons x xs)
  then show ?case by (cases ys) (simp_all add: power2_commute)
qed

lemma squares_of_differences_const_swap:
  "np_sum (np_power (Arr (map ((-) c) ys)) 2) = np_sum (np_power (Arr (map (\<lambda>a. a - c) ys)) 2)"
  by (induction ys) (simp_all add: power2_commute)

lemma squares_of_differences_self:
  "np_sum (np_power (Arr (map2 (-) ys ys)) 2) = 0"
  by (induction ys) simp_all

lemma mean_squared_error_arrays:
  assumes "length ys = length ps"
  shows "mean_squared_error (Arr ys) (Arr ps) = Some (half_sum_of_squares ys ps)"
proof -
  have "sum_list (map (\<lambda>a. a\<^sup>2) (map2 (-) ys ps)) = sum_list (map2 (\<lambda>a b. (a - b)\<^sup>2) ys ps)"
    by (simp add: map_zip_map2 o_def split_def)
  also have "\<dots> = (\<Sum>i<length ys. (ys ! i - ps ! i)\<^sup>2)"
    using assms by (rule sum_list_map2_as_index_sum)
  finally show ?thesis
    using assms by (simp add: mean_squared_error_def np_subtract_def half_sum_of_squares_def)
qed

text \<open>
  C2: for equal-length sequences \<open>y\<close> and \<open>y_pred\<close> the Scorer returns the sum of the
  squared differences divided by 2. Nothing divides by the length: the witness below
  evaluates a sample of three points whose score is 3/2 while the mean of the squared
  differences is 1.
\<close>

theorem mean_squared_error_half_sum:
  assumes "length ys = length ps"
  shows "mean_squared_error (Arr ys) (Arr ps) = Some ((\<Sum>i<length ys. (ys ! i - ps ! i)\<^sup>2) / 2)"
  using mean_squared_error_arrays [OF assms] by (simp add: half_sum_of_squares_def)

theorem mean_squared_error_half_sum_witness:
  "length [0, 0, 0 :: real] = length [1, 1, 1 :: real]
   \<and> mean_squared_error (Arr [0, 0, 0]) (Arr [1, 1, 1]) = Some (3 / 2)
   \<and> mean_of_squares [0, 0, 0] [1, 1, 1] = 1"
  using mean_squared_error_half_sum [of "[0, 0, 0]" "[1, 1, 1]"]
  by (simp add: mean_of_squares_def eval_nat_numeral)

text \<open>
  C9: the Scorer applied to a sequence against itself returns exactly 0.
\<close>

theorem mean_squared_error_self: "mean_squared_error y y = Some 0"
proof (cases y)
  case (Scalar a)
  then show ?thesis by (simp add: mean_squared_error_def np_subtract_def)
next
  case (Arr ys)
  then show ?thesis
    by (simp add: mean_squared_error_def np_subtract_def squares_of_differences_self
        del: np_power.simps np_sum.simps)
qed

text \<open>
  C8 says that swapping the two arguments of the Scorer changes the score unless the
  sequences are equal. The sequences \<open>[0]\<close> and \<open>[1]\<close> differ and score 1/2 in either
  order.
\<close>

theorem mean_squared_error_swap_counterexample:
  "mean_squared_error (Arr [0]) (Arr [1]) = mean_squared_error (Arr [1]) (Arr [0])
   \<and> [0 :: real] \<noteq> [1]"
  by (simp add: mean_squared_error_def np_subtract_def)

text \<open>
  C8, amended: the Scorer is symmetric under swapping its two arguments for all
  inputs, equal or not, since each difference is squared. (Operands that do not
  broadcast together are refused in either order.)
\<close>

theorem mean_squared_error_symmetric:
  "mean_squared_error a b = mean_squared_error b a"
proof (cases a)
  case a: (Scalar s)
  show ?thesis
  proof (cases b)
    case (Scalar t)
    then show ?thesis using a
      by (simp add: mean_squared_error_def np_subtract_def power2_commute)
  next
    case (Arr ys)
    then show ?thesis using a
      by (simp add: mean_squared_error_def np_subtract_def squares_of_differences_const_swap
          del: np_power.simps np_sum.simps)
  qed
next
  case a: (Arr xs)
  show ?thesis
  proof (cases b)
    case (Scalar t)
    then show ?thesis using a
      by (simp add: mean_squared_error_def np_subtract_def squares_of_differences_const_swap
          del: np_power.simps np_sum.simps)
  next
    case (Arr ys)
    then show ?thesis using a
      by (simp add: mean_squared_error_def np_subtract_def squares_of_differences_const_swap
          squares_of_differences_swap [of xs ys] del: np_power.simps np_sum.simps)
  qed
qed

section \<open>The Sampler without noise\<close>

lemma np_linspace_unit:
  assumes "0 < n"
  shows "\<exists>xs. np_linspace 0 1 n = Some xs \<and> length xs = nat n
    \<and> (\<forall>i<nat n. xs ! i = (if n = 1 then 0 else real i / real_of_int (n - 1)))"
proof (cases "n = 1")
  case True
  then show ?thesis by (simp add: np_linspace_def)
next
  case False
  with assms have n: "1 < nat n" by simp
  define xs where "xs = (map (\<lambda>i. real i * (1 / real (nat n - 1))) [0..<nat n])[nat n - 1 := 1]"
  have eq: "np_linspace 0 1 n = Some xs"
    using assms n by (simp add: np_linspace_def xs_def Let_def)
  have len: "length xs = nat n" by (simp add: xs_def)
  have "xs ! i = real i / real_of_int (n - 1)" if "i < nat n" for i
  proof (cases "i = nat n - 1")
    case True
    have "real (nat n - 1) = real_of_int (n - 1)" using n by (simp add: of_nat_diff)
    then show ?thesis using that True n by (simp add: xs_def)
  next
    case False
    have "real (nat n - 1) = real_of_int (n - 1)" using n by (simp add: of_nat_diff)
    then show ?thesis using that False by (simp add: xs_def)
  qed
  then show ?thesis using eq len False by simp
qed

lemma np_random_normal_zero_scale:
  assumes "0 \<le> n"
  shows "np_random_normal rng 0 0 n = Some (replicate (nat n) 0)"
  using assms by (simp add: np_random_normal_def map_replicate_const)

lemma map2_add_zeros:
  "length ns = length xs \<Longrightarrow> \<forall>a\<in>set ns. a = 0 \<Longrightarrow> map2 (+) xs ns = (xs :: real list)"
proof (induction xs arbitrary: ns)
  case Nil
  then show ?case by simp
next
  case (Cons x xs)
  then show ?case by (cases ns) simp_all
qed

text \<open>
  C7 says that for every positive \<open>n\<close> the \<open>x\<close> values span the interval from 0 to 1
  inclusive. For \<open>n = 1\<close> the only \<open>x\<close> value is 0: the end point 1 is not produced.
\<close>

theorem sampler_single_point_counterexample:
  "generate_noisy_sin_points (\<lambda>i. 1) 1 0 = Some (Arr [0], Arr [0]) \<and> last [0 :: real] \<noteq> 1"
  by (simp add: generate_noisy_sin_points_def np_linspace_def np_random_normal_def
      np_multiply_def np_add_def np_sin_def)

text \<open>
  C7, amended: for every positive \<open>n\<close> the Sampler with noise level 0 returns \<open>n\<close>
  values \<open>x\<close> and \<open>n\<close> values \<open>y\<close>; for \<open>n \<ge> 2\<close> the \<open>x\<close> values are
  \<open>x_i = i / (n - 1)\<close>, evenly spaced from 0 to 1 inclusive, and for \<open>n = 1\<close> the
  single \<open>x\<close> value is 0; in both cases \<open>y_i = sin (2 \<pi> x_i)\<close> exactly, whatever the
  generator draws.
\<close>

theorem sampler_without_noise:
  assumes "0 < n"
  shows "\<exists>xs ys. generate_noisy_sin_points rng n 0 = Some (Arr xs, Arr ys)
    \<and> length xs = nat n \<and> length ys = nat n
    \<and> (\<forall>i<nat n. xs ! i = (if n = 1 then 0 else real i / real_of_int (n - 1)))
    \<and> (1 < n \<longrightarrow> xs ! 0 = 0 \<and> xs ! (nat n - 1) = 1)
    \<and> (\<forall>i<nat n. ys ! i = sin (2 * pi * xs ! i))"
proof -
  obtain xs where xs: "np_linspace 0 1 n = Some xs" "length xs = nat n"
    and nth: "\<forall>i<nat n. xs ! i = (if n = 1 then 0 else real i / real_of_int (n - 1))"
    using np_linspace_unit [OF assms] by blast
  define ys where "ys = map (\<lambda>a. sin (2 * pi * a)) xs"
  have noise: "np_random_normal rng 0 0 n = Some (replicate (nat n) 0)"
    using assms by (simp add: np_random_normal_zero_scale)
  have add: "map2 (+) (map sin (map ((*) (2 * pi)) xs)) (replicate (nat n) 0) = ys"
    unfolding ys_def using map2_add_zeros [of "replicate (nat n) 0" "map sin (map ((*) (2 * pi)) xs)"] xs(2)
    by (simp add: o_def)
  have gen: "generate_noisy_sin_points rng n 0 = Some (Arr xs, Arr ys)"
    using xs noise add
    by (simp add: generate_noisy_sin_points_def np_multiply_def np_add_def np_sin_def del: map_map)
  have ends: "xs ! 0 = 0 \<and> xs ! (nat n - 1) = 1" if "1 < n"
  proof -
    have "real (nat n - 1) = real_of_int (n - 1)" using that by (simp add: of_nat_diff)
    then show ?thesis using nth that by simp
  qed
  have "\<forall>i<nat n. ys ! i = sin (2 * pi * xs ! i)"
    using xs(2) by (simp add: ys_def)
  then show ?thesis using gen xs(2) nth ends by (simp add: ys_def)
qed

theorem sampler_without_noise_witness:
  "(0 :: int) < 3
   \<and> generate_noisy_sin_points (\<lambda>i. real i + 1) 3 0 = Some (Arr [0, 1 / 2, 1], Arr [0, 0, 0])"
  using sampler_without_noise [of 3 "\<lambda>i. real i + 1"]
  by (simp add: generate_noisy_sin_points_def np_linspace_def np_random_normal_def
      np_multiply_def np_add_def np_sin_def Let_def eval_nat_numeral)

section \<open>The normal equations\<close>

text \<open>
  With \<open>A P A = A\<close> for the normal matrix \<open>A\<close> of \<open>X\<close>, the matrix \<open>A P\<close> fixes every
  column of the transposed design matrix: the difference \<open>M\<close> satisfies \<open>M X = 0\<close>,
  hence each row of \<open>M\<close> has square sum 0.
\<close>

lemma sum_swap_scaled:
  fixes f :: "nat \<Rightarrow> nat \<Rightarrow> real"
  shows "(\<Sum>k<N. (\<Sum>a<m. q a * f k a) * g k) = (\<Sum>a<m. q a * (\<Sum>k<N. f k a * g k))"
proof -
  have "(\<Sum>k<N. (\<Sum>a<m. q a * f k a) * g k) = (\<Sum>k<N. \<Sum>a<m. q a * (f k a * g k))"
    by (simp add: sum_distrib_right mult.assoc)
  also have "\<dots> = (\<Sum>a<m. \<Sum>k<N. q a * (f k a * g k))"
    by (rule sum.swap)
  also have "\<dots> = (\<Sum>a<m. q a * (\<Sum>k<N. f k a * g k))"
    by (simp add: sum_distrib_left)
  finally show ?thesis .
qed

lemma projection_row:
  assumes p1: "penrose1 m (gram N X) P" and i: "i < m"
  defines "Q \<equiv> \<lambda>a. \<Sum>b<m. gram N X i b * P b a"
  shows "\<forall>k<N. (\<Sum>a<m. Q a * X k a) = X k i"
proof -
  define M where "M k = (\<Sum>a<m. Q a * X k a) - X k i" for k
  have MX: "(\<Sum>k<N. M k * X k l) = 0" if l: "l < m" for l
  proof -
    have "(\<Sum>k<N. M k * X k l) = (\<Sum>k<N. (\<Sum>a<m. Q a * X k a) * X k l) - (\<Sum>k<N. X k i * X k l)"
      by (simp add: M_def left_diff_distrib sum_subtractf)
    also have "(\<Sum>k<N. (\<Sum>a<m. Q a * X k a) * X k l) = (\<Sum>a<m. Q a * gram N X a l)"
      unfolding gram_def by (rule sum_swap_scaled)
    also have "\<dots> = gram N X i l"
      using p1 i l by (simp add: penrose1_def Q_def)
    finally show ?thesis by (simp add: gram_def)
  qed
  have "(\<Sum>k<N. M k * M k) = (\<Sum>k<N. M k * (\<Sum>a<m. Q a * X k a)) - (\<Sum>k<N. M k * X k i)"
    by (simp add: M_def right_diff_distrib sum_subtractf)
  also have "(\<Sum>k<N. M k * (\<Sum>a<m. Q a * X k a)) = (\<Sum>k<N. (\<Sum>a<m. Q a * X k a) * M k)"
    by (simp add: mult.commute)
  also have "\<dots> = (\<Sum>a<m. Q a * (\<Sum>k<N. X k a * M k))"
    by (rule sum_swap_scaled)
  also have "\<dots> = (\<Sum>a<m. Q a * (\<Sum>k<N. M k * X k a))"
    by (simp add: mult.commute)
  also have "\<dots> = 0"
    using MX by simp
  finally have "(\<Sum>k<N. M k * M k) = 0"
    using MX [OF i] by simp
  then have "\<forall>k\<in>{..<N}. M k * M k = 0"
    by (subst (asm) sum_nonneg_eq_0_iff) simp_all
  then show ?thesis by (simp add: M_def)
qed

lemma normal_equations:
  assumes p1: "penrose1 m (gram N X) P" and i: "i < m"
  shows "(\<Sum>l<m. gram N X i l * fitted N m P X y l) = (\<Sum>k<N. X k i * y k)"
proof -
  have "(\<Sum>l<m. gram N X i l * fitted N m P X y l)
      = (\<Sum>l<m. \<Sum>k<N. \<Sum>a<m. gram N X i l * P l a * X k a * y k)"
    by (simp add: fitted_def sum_distrib_left sum_distrib_right mult.assoc)
  also have "\<dots> = (\<Sum>k<N. \<Sum>l<m. \<Sum>a<m. gram N X i l * P l a * X k a * y k)"
    by (rule sum.swap)
  also have "\<dots> = (\<Sum>k<N. \<Sum>a<m. \<Sum>l<m. gram N X i l * P l a * X k a * y k)"
    by (rule sum.cong [OF refl]) (rule sum.swap)
  also have "\<dots> = (\<Sum>k<N. (\<Sum>a<m. (\<Sum>l<m. gram N X i l * P l a) * X k a) * y k)"
    by (simp add: sum_distrib_left sum_distrib_right mult.assoc)
  also have "\<dots> = (\<Sum>k<N. X k i * y k)"
    using projection_row [OF p1 i] by simp
  finally show ?thesis .
qed

lemma residual_orthogonal:
  assumes p1: "penrose1 m (gram N X) P" and i: "i < m"
  shows "(\<Sum>k<N. X k i * residual m X y (fitted N m P X y) k) = 0"
proof -
  let ?w = "fitted N m P X y"
  have "(\<Sum>k<N. X k i * residual m X y ?w k)
      = (\<Sum>k<N. X k i * y k) - (\<Sum>k<N. (\<Sum>l<m. ?w l * X k l) * X k i)"
    by (simp add: residual_def right_diff_distrib sum_subtractf mult.commute)
  also have "(\<Sum>k<N. (\<Sum>l<m. ?w l * X k l) * X k i) = (\<Sum>l<m. ?w l * gram N X l i)"
    unfolding gram_def by (rule sum_swap_scaled)
  also have "\<dots> = (\<Sum>l<m. gram N X i l * ?w l)"
    by (simp add: gram_def mult.commute)
  also have "\<dots> = (\<Sum>k<N. X k i * y k)"
    by (rule normal_equations [OF p1 i])
  finally show ?thesis by simp
qed

section \<open>The fitted coefficients minimise the squared residuals\<close>

lemma sum_sq_nonneg: "0 \<le> sum_sq n f"
  by (simp add: sum_sq_def sum_nonneg)

lemma sum_sq_zero: "sum_sq n f = 0 \<Longrightarrow> k < n \<Longrightarrow> f k = 0"
  unfolding sum_sq_def by (subst (asm) sum_nonneg_eq_0_iff) simp_all

lemma sum_sq_add:
  "sum_sq n (\<lambda>k. f k + g k) = sum_sq n f + 2 * (\<Sum>k<n. f k * g k) + sum_sq n g"
  by (simp add: sum_sq_def power2_sum sum.distrib sum_distrib_left algebra_simps)

lemma residual_shift:
  "residual m X y v k = residual m X y w k + - (\<Sum>i<m. (v i - w i) * X k i)"
proof -
  have "(\<Sum>i<m. (v i - w i) * X k i) = (\<Sum>i<m. X k i * v i - X k i * w i)"
    by (rule sum.cong) (simp_all add: algebra_simps)
  also have "\<dots> = (\<Sum>i<m. X k i * v i) - (\<Sum>i<m. X k i * w i)"
    by (rule sum_subtractf)
  finally show ?thesis by (simp add: residual_def)
qed

lemma sum_sq_residual_split:
  fixes y :: "nat \<Rightarrow> real"
  assumes p1: "penrose1 m (gram N X) P"
  defines "w \<equiv> fitted N m P X y"
  shows "sum_sq N (residual m X y v)
    = sum_sq N (residual m X y w) + sum_sq N (\<lambda>k. \<Sum>i<m. (v i - w i) * X k i)"
proof -
  let ?d = "\<lambda>k. \<Sum>i<m. (v i - w i) * X k i"
  have cross: "(\<Sum>k<N. residual m X y w k * - ?d k) = 0"
  proof -
    have "(\<Sum>k<N. ?d k * residual m X y w k)
        = (\<Sum>i<m. (v i - w i) * (\<Sum>k<N. X k i * residual m X y w k))"
      by (rule sum_swap_scaled)
    also have "\<dots> = 0"
      using residual_orthogonal [OF p1] by (simp add: w_def)
    finally show ?thesis by (simp add: sum_negf mult.commute)
  qed
  have "residual m X y v = (\<lambda>k. residual m X y w k + - ?d k)"
    by (rule ext) (rule residual_shift)
  then have "sum_sq N (residual m X y v) = sum_sq N (\<lambda>k. residual m X y w k + - ?d k)"
    by (rule arg_cong)
  also have "\<dots> = sum_sq N (residual m X y w) + 2 * (\<Sum>k<N. residual m X y w k * - ?d k)
      + sum_sq N (\<lambda>k. - ?d k)"
    by (rule sum_sq_add)
  also have "sum_sq N (\<lambda>k. - ?d k) = sum_sq N ?d"
    by (simp add: sum_sq_def)
  finally show ?thesis using cross by simp
qed

lemma fitted_minimal:
  assumes p1: "penrose1 m (gram N X) P"
  shows "sum_sq N (residual m X y (fitted N m P X y)) \<le> sum_sq N (residual m X y v)"
  using sum_sq_residual_split [OF p1, of y v] sum_sq_nonneg [of N "\<lambda>k. \<Sum>i<m. (v i - fitted N m P X y i) * X k i"]
  by simp

lemma fitted_fixed_point:
  fixes y :: "nat \<Rightarrow> real"
  assumes p1: "penrose1 m (gram N X) P" and i: "i < m"
  defines "w \<equiv> fitted N m P X y"
  shows "(\<Sum>l<m. (\<Sum>a<m. P i a * gram N X a l) * w l) = w i"
proof -
  have "(\<Sum>l<m. (\<Sum>a<m. P i a * gram N X a l) * w l)
      = (\<Sum>a<m. P i a * (\<Sum>l<m. gram N X a l * w l))"
    by (rule sum_swap_scaled)
  also have "\<dots> = (\<Sum>a<m. P i a * (\<Sum>k<N. X k a * y k))"
    using normal_equations [OF p1, of _ y] by (simp add: w_def)
  also have "\<dots> = (\<Sum>k<N. (\<Sum>a<m. P i a * X k a) * y k)"
    by (rule sum_swap_scaled [symmetric])
  finally show ?thesis by (simp add: w_def fitted_def)
qed

lemma fitted_in_row_space:
  fixes y :: "nat \<Rightarrow> real"
  assumes p1: "penrose1 m (gram N X) P" and p4: "penrose4 m (gram N X) P" and i: "i < m"
  defines "w \<equiv> fitted N m P X y"
  defines "c \<equiv> \<lambda>k. \<Sum>l<m. (\<Sum>a<m. P l a * X k a) * w l"
  shows "w i = (\<Sum>k<N. X k i * c k)"
proof -
  have "w i = (\<Sum>l<m. (\<Sum>a<m. P i a * gram N X a l) * w l)"
    using fitted_fixed_point [OF p1 i, of y] by (simp add: w_def)
  also have "\<dots> = (\<Sum>l<m. (\<Sum>a<m. P l a * gram N X a i) * w l)"
    using p4 i by (simp add: penrose4_def)
  also have "\<dots> = (\<Sum>l<m. \<Sum>a<m. \<Sum>k<N. P l a * X k a * X k i * w l)"
    by (simp add: gram_def sum_distrib_left sum_distrib_right mult.assoc)
  also have "\<dots> = (\<Sum>l<m. \<Sum>k<N. \<Sum>a<m. P l a * X k a * X k i * w l)"
    by (rule sum.cong [OF refl]) (rule sum.swap)
  also have "\<dots> = (\<Sum>k<N. \<Sum>l<m. \<Sum>a<m. P l a * X k a * X k i * w l)"
    by (rule sum.swap)
  also have "\<dots> = (\<Sum>k<N. X k i * c k)"
    by (simp add: c_def sum_distrib_left sum_distrib_right mult_ac)
  finally show ?thesis .
qed

lemma fitted_least_norm:
  assumes p1: "penrose1 m (gram N X) P" and p4: "penrose4 m (gram N X) P"
    and eq: "sum_sq N (residual m X y v) = sum_sq N (residual m X y (fitted N m P X y))"
  shows "sum_sq m (fitted N m P X y) \<le> sum_sq m v"
proof -
  define w where "w = fitted N m P X y"
  define c where "c k = (\<Sum>l<m. (\<Sum>a<m. P l a * X k a) * w l)" for k
  let ?d = "\<lambda>k. \<Sum>i<m. (v i - w i) * X k i"
  have "sum_sq N ?d = 0"
    using sum_sq_residual_split [OF p1, of y v] eq by (simp add: w_def)
  then have d0: "?d k = 0" if "k < N" for k
    using that by (rule sum_sq_zero)
  have "(\<Sum>i<m. w i * (v i - w i)) = (\<Sum>i<m. (\<Sum>k<N. c k * X k i) * (v i - w i))"
    using fitted_in_row_space [OF p1 p4, of _ y] by (simp add: w_def c_def mult.commute)
  also have "\<dots> = (\<Sum>k<N. c k * (\<Sum>i<m. X k i * (v i - w i)))"
    by (rule sum_swap_scaled)
  also have "\<dots> = 0"
    using d0 by (simp add: mult.commute)
  finally have cross: "(\<Sum>i<m. w i * (v i - w i)) = 0" .
  have "sum_sq m v = sum_sq m (\<lambda>i. w i + (v i - w i))"
    by simp
  also have "\<dots> = sum_sq m w + 2 * (\<Sum>i<m. w i * (v i - w i)) + sum_sq m (\<lambda>i. v i - w i)"
    by (rule sum_sq_add)
  finally show ?thesis
    using cross sum_sq_nonneg [of m "\<lambda>i. v i - w i"] by (simp add: w_def)
qed

section \<open>From the arrays to their entries\<close>

lemma nrows_mk_matrix [simp]: "nrows (mk_matrix r c f) = r"
  by (simp add: mk_matrix_def)

lemma ncols_mk_matrix [simp]: "ncols (mk_matrix r c f) = c"
  by (simp add: mk_matrix_def)

lemma entry_mk_matrix [simp]: "i < r \<Longrightarrow> j < c \<Longrightarrow> entry (mk_matrix r c f) i j = f i j"
  by (simp add: mk_matrix_def entry_def)

lemma normal_matrix_entry:
  assumes "i < Suc d" and "l < Suc d"
  shows "entry (normal_matrix x d) i l = gram (length x) (\<lambda>k a. x ! k ^ a) i l"
  using assms by (simp add: normal_matrix_def mat_mul_def np_transpose_def np_vander_def gram_def)

lemma normal_matrix_dims [simp]:
  "nrows (normal_matrix x d) = Suc d" "ncols (normal_matrix x d) = Suc d"
  by (simp_all add: normal_matrix_def mat_mul_def np_transpose_def np_vander_def)

lemma penrose1_cong:
  assumes "\<And>i l. i < m \<Longrightarrow> l < m \<Longrightarrow> A i l = A' i l"
  shows "penrose1 m A P \<longleftrightarrow> penrose1 m A' P"
  unfolding penrose1_def using assms by simp

lemma penrose4_cong:
  assumes "\<And>i l. i < m \<Longrightarrow> l < m \<Longrightarrow> A i l = A' i l"
  shows "penrose4 m A P \<longleftrightarrow> penrose4 m A' P"
  unfolding penrose4_def using assms by simp

lemma moore_penrose_penrose1:
  assumes mp: "moore_penrose A P" and sq: "nrows A = m" "ncols A = m"
  shows "penrose1 m (entry A) (entry P)"
  unfolding penrose1_def
proof (intro allI impI)
  fix i l assume i: "i < m" and l: "l < m"
  have dims: "nrows P = m" "ncols P = m"
    using mp sq by (simp_all add: moore_penrose_def)
  have "mat_mul (mat_mul A P) A = A" "well_formed P"
    using mp by (simp_all add: moore_penrose_def)
  then have "entry (mat_mul (mat_mul A P) A) i l = entry A i l"
    by simp
  then show "(\<Sum>a<m. (\<Sum>b<m. entry A i b * entry P b a) * entry A a l) = entry A i l"
    using i l sq dims by (simp add: mat_mul_def)
qed

lemma moore_penrose_penrose4:
  assumes mp: "moore_penrose A P" and sq: "nrows A = m" "ncols A = m"
  shows "penrose4 m (entry A) (entry P)"
  unfolding penrose4_def
proof (intro allI impI)
  fix i l assume i: "i < m" and l: "l < m"
  have dims: "nrows P = m" "ncols P = m"
    using mp sq by (simp_all add: moore_penrose_def)
  have "np_transpose (mat_mul P A) = mat_mul P A"
    using mp by (simp add: moore_penrose_def)
  then have "entry (np_transpose (mat_mul P A)) l i = entry (mat_mul P A) l i"
    by simp
  then show "(\<Sum>a<m. entry P i a * entry A a l) = (\<Sum>a<m. entry P l a * entry A a i)"
    using i l sq dims by (simp add: mat_mul_def np_transpose_def)
qed

lemma moore_penrose_normal_matrix:
  assumes "moore_penrose (normal_matrix x d) P"
  shows "penrose1 (Suc d) (gram (length x) (\<lambda>k a. x ! k ^ a)) (entry P)"
    and "penrose4 (Suc d) (gram (length x) (\<lambda>k a. x ! k ^ a)) (entry P)"
    and "nrows P = Suc d" and "ncols P = Suc d"
proof -
  have "penrose1 (Suc d) (entry (normal_matrix x d)) (entry P)"
    using assms by (rule moore_penrose_penrose1) simp_all
  then show "penrose1 (Suc d) (gram (length x) (\<lambda>k a. x ! k ^ a)) (entry P)"
    by (simp add: penrose1_cong [OF normal_matrix_entry])
  have "penrose4 (Suc d) (entry (normal_matrix x d)) (entry P)"
    using assms by (rule moore_penrose_penrose4) simp_all
  then show "penrose4 (Suc d) (gram (length x) (\<lambda>k a. x ! k ^ a)) (entry P)"
    by (simp add: penrose4_cong [OF normal_matrix_entry])
  show "nrows P = Suc d" "ncols P = Suc d"
    using assms by (simp_all add: moore_penrose_def)
qed

lemma polynomial_regression_formula:
  assumes len: "length x = length y"
    and dims: "nrows (pinv (normal_matrix x d)) = Suc d" "ncols (pinv (normal_matrix x d)) = Suc d"
  shows "polynomial_regression pinv x y d
    = Some (map (fitted (length x) (Suc d) (entry (pinv (normal_matrix x d))) (\<lambda>k a. x ! k ^ a) ((!) y))
        [0..<Suc d])"
proof -
  let ?X = "np_vander x (Suc d)"
  let ?P = "pinv (normal_matrix x d)"
  have A: "np_matmul (np_transpose ?X) ?X = Some (normal_matrix x d)"
    by (simp add: np_matmul_def normal_matrix_def np_transpose_def np_vander_def)
  have B: "np_matmul ?P (np_transpose ?X) = Some (mat_mul ?P (np_transpose ?X))"
    using dims by (simp add: np_matmul_def np_transpose_def np_vander_def)
  have C: "np_matvec (mat_mul ?P (np_transpose ?X)) y
      = Some (map (\<lambda>i. \<Sum>k<length x. entry (mat_mul ?P (np_transpose ?X)) i k * y ! k) [0..<Suc d])"
    using len dims by (simp add: np_matvec_def mat_mul_def np_transpose_def np_vander_def)
  have D: "(\<Sum>k<length x. entry (mat_mul ?P (np_transpose ?X)) i k * y ! k)
      = fitted (length x) (Suc d) (entry ?P) (\<lambda>k a. x ! k ^ a) ((!) y) i" if "i < Suc d" for i
    using that dims
    by (simp add: fitted_def mat_mul_def np_transpose_def np_vander_def)
  have "map (\<lambda>i. \<Sum>k<length x. entry (mat_mul ?P (np_transpose ?X)) i k * y ! k) [0..<Suc d]
      = map (fitted (length x) (Suc d) (entry ?P) (\<lambda>k a. x ! k ^ a) ((!) y)) [0..<Suc d]"
    by (rule map_cong [OF refl]) (simp add: D del: upt_Suc)
  then show ?thesis
    using A B C by (simp add: polynomial_regression_def del: upt_Suc)
qed

section \<open>The Fitter solves the least-squares problem\<close>

lemma residual_cong:
  assumes "\<And>i. i < m \<Longrightarrow> v i = v' i"
  shows "residual m X y v k = residual m X y v' k"
  unfolding residual_def using assms by simp

lemma sum_squared_residuals_index:
  assumes "length v = m"
  shows "sum_squared_residuals x y v
    = sum_sq (length x) (residual m (\<lambda>k a. x ! k ^ a) ((!) y) ((!) v))"
  unfolding sum_squared_residuals_def sum_sq_def residual_def
  using assms by (simp add: mult.commute)

lemma sum_squared_residuals_poly_eval:
  "sum_squared_residuals x y v = (\<Sum>k<length x. (y ! k - poly_eval v (x ! k))\<^sup>2)"
  by (simp add: sum_squared_residuals_def poly_eval_def)

text \<open>The coefficient list the Fitter returns, by its index formula.\<close>

lemma fitter_result:
  assumes len: "length x = length y"
    and mp: "moore_penrose (normal_matrix x d) (pinv (normal_matrix x d))"
  defines "F \<equiv> fitted (length x) (Suc d) (entry (pinv (normal_matrix x d))) (\<lambda>k a. x ! k ^ a) ((!) y)"
  shows "polynomial_regression pinv x y d = Some (map F [0..<Suc d])"
  unfolding F_def
  using polynomial_regression_formula [OF len] moore_penrose_normal_matrix(3,4) [OF mp]
  by blast

lemma fitter_minimal:
  assumes len: "length x = length y"
    and mp: "moore_penrose (normal_matrix x d) (pinv (normal_matrix x d))"
    and w: "polynomial_regression pinv x y d = Some w"
    and v: "length v = Suc d"
  shows "sum_squared_residuals x y w \<le> sum_squared_residuals x y v"
proof -
  let ?X = "\<lambda>k a. x ! k ^ a"
  let ?P = "entry (pinv (normal_matrix x d))"
  let ?F = "fitted (length x) (Suc d) ?P ?X ((!) y)"
  have w_eq: "w = map ?F [0..<Suc d]"
    using fitter_result [where pinv = pinv, OF len mp] w by simp
  have nth: "w ! i = ?F i" if "i < Suc d" for i
    unfolding w_eq using that by (simp only: nth_map_upt diff_zero add_0)
  have p1: "penrose1 (Suc d) (gram (length x) ?X) ?P"
    by (rule moore_penrose_normal_matrix(1) [OF mp])
  have "sum_squared_residuals x y w = sum_sq (length x) (residual (Suc d) ?X ((!) y) ((!) w))"
    by (rule sum_squared_residuals_index) (simp add: w_eq)
  also have "residual (Suc d) ?X ((!) y) ((!) w) = residual (Suc d) ?X ((!) y) ?F"
    by (rule ext, rule residual_cong) (rule nth)
  also have "sum_sq (length x) (residual (Suc d) ?X ((!) y) ?F)
      \<le> sum_sq (length x) (residual (Suc d) ?X ((!) y) ((!) v))"
    by (rule fitted_minimal [OF p1])
  also have "\<dots> = sum_squared_residuals x y v"
    by (rule sum_squared_residuals_index [OF v, symmetric])
  finally show ?thesis .
qed

lemma fitter_least_norm:
  assumes len: "length x = length y"
    and mp: "moore_penrose (normal_matrix x d) (pinv (normal_matrix x d))"
    and w: "polynomial_regression pinv x y d = Some w"
    and v: "length v = Suc d"
    and eq: "sum_squared_residuals x y v = sum_squared_residuals x y w"
  shows "(\<Sum>i<Suc d. (w ! i)\<^sup>2) \<le> (\<Sum>i<Suc d. (v ! i)\<^sup>2)"
proof -
  let ?X = "\<lambda>k a. x ! k ^ a"
  let ?P = "entry (pinv (normal_matrix x d))"
  let ?F = "fitted (length x) (Suc d) ?P ?X ((!) y)"
  have w_eq: "w = map ?F [0..<Suc d]"
    using fitter_result [where pinv = pinv, OF len mp] w by simp
  have nth: "w ! i = ?F i" if "i < Suc d" for i
    unfolding w_eq using that by (simp only: nth_map_upt diff_zero add_0)
  have p1: "penrose1 (Suc d) (gram (length x) ?X) ?P"
    by (rule moore_penrose_normal_matrix(1) [OF mp])
  have p4: "penrose4 (Suc d) (gram (length x) ?X) ?P"
    by (rule moore_penrose_normal_matrix(2) [OF mp])
  have res_w: "residual (Suc d) ?X ((!) y) ((!) w) = residual (Suc d) ?X ((!) y) ?F"
    by (rule ext, rule residual_cong) (rule nth)
  have "sum_sq (length x) (residual (Suc d) ?X ((!) y) ((!) v)) = sum_squared_residuals x y v"
    by (rule sum_squared_residuals_index [OF v, symmetric])
  also have "\<dots> = sum_sq (length x) (residual (Suc d) ?X ((!) y) ((!) w))"
    unfolding eq by (rule sum_squared_residuals_index) (simp add: w_eq)
  finally have "sum_sq (length x) (residual (Suc d) ?X ((!) y) ((!) v))
      = sum_sq (length x) (residual (Suc d) ?X ((!) y) ?F)"
    unfolding res_w .
  then have "sum_sq (Suc d) ?F \<le> sum_sq (Suc d) ((!) v)"
    by (rule fitted_least_norm [OF p1 p4])
  moreover have "sum_sq (Suc d) ?F = (\<Sum>i<Suc d. (w ! i)\<^sup>2)"
    unfolding sum_sq_def by (rule sum.cong) (simp_all only: nth lessThan_iff)
  ultimately show ?thesis by (simp only: sum_sq_def)
qed

section \<open>NumPy's pseudoinverse without a cut singular value\<close>

text \<open>
  The matrices \<open>q\<^sub>j q\<^sub>j\<^sup>T / (q\<^sub>j \<cdot> q\<^sub>j)\<close> of a spectral decomposition are orthogonal
  projectors that annihilate each other, so spectral matrices over the same
  eigenvectors multiply by multiplying their eigenvalues. When no singular value is
  cut, the Moore-Penrose equations follow.
\<close>

lemma mk_matrix_cong:
  assumes "\<And>i j. i < r \<Longrightarrow> j < c \<Longrightarrow> f i j = g i j"
  shows "mk_matrix r c f = mk_matrix r c g"
  using assms by (simp add: mk_matrix_def)

lemma well_formed_mk_matrix: "well_formed (mk_matrix r c f)"
  by (simp add: well_formed_def mk_matrix_def list_all_iff)

lemma spectral_matrix_entries:
  "spectral_matrix n (map (\<lambda>(s, q). (g s, q)) sp) = mk_matrix n n (spectral_entry sp g)"
proof -
  have "sum_list (map (\<lambda>(s, q). s * (q ! i * q ! l / dot q q)) (map (\<lambda>(s, q). (g s, q)) sp))
      = spectral_entry sp g i l" for i l
  proof -
    have "sum_list (map (\<lambda>(s, q). s * (q ! i * q ! l / dot q q)) (map (\<lambda>(s, q). (g s, q)) sp))
        = sum_list (map (\<lambda>p. g (fst p) * (snd p ! i * snd p ! l / dot (snd p) (snd p))) sp)"
      by (simp add: o_def split_def)
    also have "\<dots> = spectral_entry sp g i l"
      unfolding spectral_entry_def by (rule sum_list_map_as_index_sum)
    finally show ?thesis .
  qed
  then show ?thesis by (simp add: spectral_matrix_def)
qed

lemma spectral_matrix_entries_id:
  "spectral_matrix n sp = mk_matrix n n (spectral_entry sp (\<lambda>s. s))"
  using spectral_matrix_entries [of n "\<lambda>s. s" sp] by (simp add: split_def)

lemma dot_index:
  assumes "length q = n" and "length r = n"
  shows "dot q r = (\<Sum>a<n. q ! a * r ! a)"
  unfolding dot_def using assms sum_list_map2_as_index_sum [of q r "(*)"] by simp

lemma spectral_entry_cong:
  assumes "\<And>j. j < length sp \<Longrightarrow> g (fst (sp ! j)) = h (fst (sp ! j))"
  shows "spectral_entry sp g i l = spectral_entry sp h i l"
  unfolding spectral_entry_def using assms by simp

lemma spectral_entry_sym: "spectral_entry sp g i l = spectral_entry sp g l i"
  by (simp add: spectral_entry_def mult.commute)

lemma spectral_entry_product:
  assumes len: "\<And>j. j < length sp \<Longrightarrow> length (snd (sp ! j)) = n"
    and nz: "\<And>j. j < length sp \<Longrightarrow> dot (snd (sp ! j)) (snd (sp ! j)) \<noteq> 0"
    and orth: "\<And>j k. j < length sp \<Longrightarrow> k < length sp \<Longrightarrow> j \<noteq> k
      \<Longrightarrow> dot (snd (sp ! j)) (snd (sp ! k)) = 0"
  shows "(\<Sum>a<n. spectral_entry sp g i a * spectral_entry sp h a l)
    = spectral_entry sp (\<lambda>s. g s * h s) i l"
proof -
  let ?q = "\<lambda>j. snd (sp ! j)"
  let ?c = "\<lambda>j. dot (?q j) (?q j)"
  let ?E = "\<lambda>j i l. ?q j ! i * ?q j ! l / ?c j"
  let ?r = "length sp"
  have proj: "(\<Sum>a<n. ?E j i a * ?E k a l) = (if j = k then ?E j i l else 0)"
    if j: "j < ?r" and k: "k < ?r" for j k
  proof -
    have "(\<Sum>a<n. ?E j i a * ?E k a l)
        = (\<Sum>a<n. (?q j ! i * ?q k ! l / (?c j * ?c k)) * (?q j ! a * ?q k ! a))"
      by (rule sum.cong) (simp_all add: field_simps)
    also have "\<dots> = (?q j ! i * ?q k ! l / (?c j * ?c k)) * dot (?q j) (?q k)"
      using dot_index [OF len [OF j] len [OF k]] by (simp add: sum_distrib_left)
    finally have eq: "(\<Sum>a<n. ?E j i a * ?E k a l)
        = (?q j ! i * ?q k ! l / (?c j * ?c k)) * dot (?q j) (?q k)" .
    show ?thesis
    proof (cases "j = k")
      case True
      then show ?thesis using eq nz [OF k] by simp
    next
      case False
      then show ?thesis using eq orth [OF j k] by simp
    qed
  qed
  have "(\<Sum>a<n. spectral_entry sp g i a * spectral_entry sp h a l)
      = (\<Sum>a<n. \<Sum>j<?r. \<Sum>k<?r. (g (fst (sp ! j)) * h (fst (sp ! k))) * (?E j i a * ?E k a l))"
    unfolding spectral_entry_def
    by (simp add: sum_product mult_ac)
  also have "\<dots> = (\<Sum>j<?r. \<Sum>a<n. \<Sum>k<?r. (g (fst (sp ! j)) * h (fst (sp ! k))) * (?E j i a * ?E k a l))"
    by (rule sum.swap)
  also have "\<dots> = (\<Sum>j<?r. \<Sum>k<?r. \<Sum>a<n. (g (fst (sp ! j)) * h (fst (sp ! k))) * (?E j i a * ?E k a l))"
    by (rule sum.cong [OF refl]) (rule sum.swap)
  also have "\<dots> = (\<Sum>j<?r. \<Sum>k<?r. (g (fst (sp ! j)) * h (fst (sp ! k))) * (\<Sum>a<n. ?E j i a * ?E k a l))"
    by (simp add: sum_distrib_left)
  also have "\<dots> = (\<Sum>j<?r. \<Sum>k<?r. (g (fst (sp ! j)) * h (fst (sp ! k))) * (if j = k then ?E j i l else 0))"
    by (intro sum.cong refl) (simp only: proj lessThan_iff)
  also have "\<dots> = (\<Sum>j<?r. \<Sum>k<?r. if j = k then g (fst (sp ! j)) * h (fst (sp ! k)) * ?E j i l else 0)"
    by (intro sum.cong refl) simp
  also have "\<dots> = (\<Sum>j<?r. g (fst (sp ! j)) * h (fst (sp ! j)) * ?E j i l)"
    by (intro sum.cong refl) (simp add: sum.delta')
  finally show ?thesis by (simp add: spectral_entry_def)
qed

lemma mat_mul_spectral:
  assumes len: "\<And>j. j < length sp \<Longrightarrow> length (snd (sp ! j)) = n"
    and nz: "\<And>j. j < length sp \<Longrightarrow> dot (snd (sp ! j)) (snd (sp ! j)) \<noteq> 0"
    and orth: "\<And>j k. j < length sp \<Longrightarrow> k < length sp \<Longrightarrow> j \<noteq> k
      \<Longrightarrow> dot (snd (sp ! j)) (snd (sp ! k)) = 0"
  shows "mat_mul (mk_matrix n n (spectral_entry sp g)) (mk_matrix n n (spectral_entry sp h))
    = mk_matrix n n (spectral_entry sp (\<lambda>s. g s * h s))"
proof -
  have "(\<Sum>a<n. entry (mk_matrix n n (spectral_entry sp g)) i a
          * entry (mk_matrix n n (spectral_entry sp h)) a l)
      = spectral_entry sp (\<lambda>s. g s * h s) i l" if "i < n" and "l < n" for i l
  proof -
    have "(\<Sum>a<n. entry (mk_matrix n n (spectral_entry sp g)) i a
          * entry (mk_matrix n n (spectral_entry sp h)) a l)
        = (\<Sum>a<n. spectral_entry sp g i a * spectral_entry sp h a l)"
      using that by (intro sum.cong refl) simp
    then show ?thesis
      using spectral_entry_product [of sp n g i h l, OF len nz orth] by simp
  qed
  then show ?thesis
    unfolding mat_mul_def nrows_mk_matrix ncols_mk_matrix by (rule mk_matrix_cong)
qed

lemma np_transpose_spectral:
  "np_transpose (mk_matrix n n (spectral_entry sp g)) = mk_matrix n n (spectral_entry sp g)"
  unfolding np_transpose_def nrows_mk_matrix ncols_mk_matrix
  by (rule mk_matrix_cong) (simp add: spectral_entry_sym [of sp g])

lemma np_linalg_pinv_exact:
  assumes dec: "spectral_decomposition A sp"
    and keep: "singular_values_kept rcond sp"
  shows "moore_penrose A (np_linalg_pinv rcond A sp)"
proof -
  define n where "n = nrows A"
  define cut where "cut s = (if rcond * fold max (map fst sp) 0 < s then 1 / s else 0)" for s
  have dec_eq: "A = spectral_matrix n sp"
    and dec_elems: "list_all (\<lambda>(s, q). 0 < s \<and> length q = n \<and> dot q q \<noteq> 0) sp"
    and dec_orth: "list_all (\<lambda>j. list_all (\<lambda>k. j = k \<or> dot (snd (sp ! j)) (snd (sp ! k)) = 0)
          [0..<length sp]) [0..<length sp]"
    using dec unfolding spectral_decomposition_def n_def by blast+
  have A: "A = mk_matrix n n (spectral_entry sp (\<lambda>s. s))"
    using dec_eq spectral_matrix_entries_id [of n sp] by (rule trans)
  have P: "np_linalg_pinv rcond A sp = mk_matrix n n (spectral_entry sp cut)"
    unfolding np_linalg_pinv_def Let_def n_def [symmetric]
    using spectral_matrix_entries [of n cut sp] by (simp add: cut_def)
  have elems: "0 < fst (sp ! j) \<and> length (snd (sp ! j)) = n \<and> dot (snd (sp ! j)) (snd (sp ! j)) \<noteq> 0"
    if "j < length sp" for j
  proof -
    have "sp ! j \<in> set sp" using that by simp
    then show ?thesis
      using dec_elems by (auto simp: list_all_iff split_def)
  qed
  have len: "\<And>j. j < length sp \<Longrightarrow> length (snd (sp ! j)) = n"
    and nz: "\<And>j. j < length sp \<Longrightarrow> dot (snd (sp ! j)) (snd (sp ! j)) \<noteq> 0"
    using elems by simp_all
  have orth: "dot (snd (sp ! j)) (snd (sp ! k)) = 0"
    if j: "j < length sp" and k: "k < length sp" and ne: "j \<noteq> k" for j k
  proof -
    have "\<forall>j\<in>set [0..<length sp]. \<forall>k\<in>set [0..<length sp].
        j = k \<or> dot (snd (sp ! j)) (snd (sp ! k)) = 0"
      using dec_orth by (simp add: list_all_iff)
    moreover have "j \<in> set [0..<length sp]" "k \<in> set [0..<length sp]"
      using j k by simp_all
    ultimately show ?thesis using ne by blast
  qed
  have cut: "cut (fst (sp ! j)) = 1 / fst (sp ! j)" if "j < length sp" for j
  proof -
    have "sp ! j \<in> set sp" using that by simp
    then show ?thesis
      using keep by (auto simp: singular_values_kept_def list_all_iff cut_def split_def)
  qed
  have mul: "mat_mul (mk_matrix n n (spectral_entry sp g)) (mk_matrix n n (spectral_entry sp h))
      = mk_matrix n n (spectral_entry sp (\<lambda>s. g s * h s))" for g h
    by (rule mat_mul_spectral [OF len nz orth])
  have APA: "spectral_entry sp (\<lambda>s. s * cut s * s) = spectral_entry sp (\<lambda>s. s)"
    by (intro ext, rule spectral_entry_cong) (use elems cut in simp)
  have PAP: "spectral_entry sp (\<lambda>s. cut s * s * cut s) = spectral_entry sp cut"
    by (intro ext, rule spectral_entry_cong) (use elems cut in simp)
  have mp: "moore_penrose (mk_matrix n n (spectral_entry sp (\<lambda>s. s)))
      (mk_matrix n n (spectral_entry sp cut))"
    unfolding moore_penrose_def
    by (simp only: mul APA PAP np_transpose_spectral well_formed_mk_matrix
        nrows_mk_matrix ncols_mk_matrix simp_thms)
  show ?thesis
    by (subst P, subst A) (rule mp)
qed

lemma pinv_with_exact:
  assumes "spectral_decomposition A sp" and "singular_values_kept default_rcond sp"
  shows "moore_penrose A (pinv_with sp A)"
  unfolding pinv_with_def using assms by (rule np_linalg_pinv_exact)

lemma design_matrix:
  "nrows (np_vander x n) = length x \<and> ncols (np_vander x n) = n
   \<and> (\<forall>k<length x. \<forall>i<n. entry (np_vander x n) k i = x ! k ^ i)"
  by (simp add: np_vander_def)

text \<open>
  C1, amended: for equal-length sequences \<open>x\<close> and \<open>y\<close> of length \<open>N\<close> and a degree
  \<open>D\<close>, the design matrix \<open>X\<close> has \<open>N\<close> rows and \<open>D + 1\<close> columns and holds \<open>x^i\<close> in
  column \<open>i\<close>, and the Fitter returns the vector \<open>w = P X\<^sup>T y\<close> of length \<open>D + 1\<close>,
  where \<open>P\<close> is what \<open>pinv\<close> returns for \<open>X\<^sup>T X\<close> (a square matrix of order \<open>D + 1\<close>).
  When \<open>P\<close> is the Moore-Penrose pseudoinverse of \<open>X\<^sup>T X\<close>, this vector minimises the
  sum of squared residuals over all coefficient vectors of length \<open>D + 1\<close> and has the
  least norm among the minimisers.
\<close>

theorem fitter_least_squares:
  assumes len: "length x = length y"
    and rows: "nrows (pinv (normal_matrix x D)) = D + 1"
    and cols: "ncols (pinv (normal_matrix x D)) = D + 1"
  shows "\<exists>w. polynomial_regression pinv x y D = Some w
    \<and> nrows (np_vander x (D + 1)) = length x \<and> ncols (np_vander x (D + 1)) = D + 1
    \<and> (\<forall>k<length x. \<forall>i<D + 1. entry (np_vander x (D + 1)) k i = x ! k ^ i)
    \<and> length w = D + 1
    \<and> (\<forall>i<D + 1. w ! i
         = (\<Sum>k<length x. (\<Sum>a<D + 1. entry (pinv (normal_matrix x D)) i a * x ! k ^ a) * y ! k))
    \<and> (moore_penrose (normal_matrix x D) (pinv (normal_matrix x D)) \<longrightarrow>
         (\<forall>v. length v = D + 1 \<longrightarrow> sum_squared_residuals x y w \<le> sum_squared_residuals x y v)
         \<and> (\<forall>v. length v = D + 1 \<and> sum_squared_residuals x y v = sum_squared_residuals x y w
              \<longrightarrow> (\<Sum>i<D + 1. (w ! i)\<^sup>2) \<le> (\<Sum>i<D + 1. (v ! i)\<^sup>2)))"
proof -
  let ?F = "fitted (length x) (Suc D) (entry (pinv (normal_matrix x D))) (\<lambda>k a. x ! k ^ a) ((!) y)"
  define w where "w = map ?F [0..<Suc D]"
  have w: "polynomial_regression pinv x y D = Some w"
    unfolding w_def using rows cols
    by (intro polynomial_regression_formula [OF len]) simp_all
  have "length w = D + 1"
    by (simp add: w_def)
  moreover have "\<forall>i<D + 1. w ! i
      = (\<Sum>k<length x. (\<Sum>a<D + 1. entry (pinv (normal_matrix x D)) i a * x ! k ^ a) * y ! k)"
  proof (intro allI impI)
    fix i assume "i < D + 1"
    then have "w ! i = ?F i"
      unfolding w_def by (simp only: nth_map_upt diff_zero add_0 Suc_eq_plus1)
    then show "w ! i
      = (\<Sum>k<length x. (\<Sum>a<D + 1. entry (pinv (normal_matrix x D)) i a * x ! k ^ a) * y ! k)"
      by (simp add: fitted_def)
  qed
  moreover have "(\<forall>v. length v = D + 1
        \<longrightarrow> sum_squared_residuals x y w \<le> sum_squared_residuals x y v)
      \<and> (\<forall>v. length v = D + 1
        \<and> sum_squared_residuals x y v = sum_squared_residuals x y w
        \<longrightarrow> (\<Sum>i<D + 1. (w ! i)\<^sup>2) \<le> (\<Sum>i<D + 1. (v ! i)\<^sup>2))"
    if mp: "moore_penrose (normal_matrix x D) (pinv (normal_matrix x D))"
  proof -
    have "\<forall>v. length v = D + 1
        \<longrightarrow> sum_squared_residuals x y w \<le> sum_squared_residuals x y v"
      using fitter_minimal [where pinv = pinv, OF len mp w] by simp
    moreover have "\<forall>v. length v = D + 1
        \<and> sum_squared_residuals x y v = sum_squared_residuals x y w
        \<longrightarrow> (\<Sum>i<D + 1. (w ! i)\<^sup>2) \<le> (\<Sum>i<D + 1. (v ! i)\<^sup>2)"
      using fitter_least_norm [where pinv = pinv, OF len mp w] by (simp del: sum.lessThan_Suc)
    ultimately show ?thesis by blast
  qed
  moreover have "nrows (np_vander x (D + 1)) = length x \<and> ncols (np_vander x (D + 1)) = D + 1
      \<and> (\<forall>k<length x. \<forall>i<D + 1. entry (np_vander x (D + 1)) k i = x ! k ^ i)"
    by (rule design_matrix)
  ultimately show ?thesis using w by blast
qed

lemma poly_eval_Cons: "poly_eval (c # q) a = c + a * poly_eval q a"
  by (simp add: poly_eval_def sum.lessThan_Suc_shift sum_distrib_left mult_ac del: sum.lessThan_Suc)

lemma poly_eval_Nil: "poly_eval [] a = 0"
  by (simp add: poly_eval_def)

lemma poly_eval_zeros: "poly_eval (replicate n 0) a = 0"
  by (induction n) (simp_all add: poly_eval_Nil poly_eval_Cons)

lemma poly_eval_append_zeros: "poly_eval (w @ replicate n 0) a = poly_eval w a"
  by (induction w) (simp_all add: poly_eval_zeros poly_eval_Nil poly_eval_Cons)

lemma sum_squared_residuals_append_zeros:
  "sum_squared_residuals x y (w @ replicate n 0) = sum_squared_residuals x y w"
  by (simp only: sum_squared_residuals_poly_eval poly_eval_append_zeros)

lemma fitter_length:
  assumes "length x = length y"
    and "moore_penrose (normal_matrix x d) (pinv (normal_matrix x d))"
    and "polynomial_regression pinv x y d = Some w"
  shows "length w = Suc d"
  using fitter_result [where pinv = pinv, OF assms(1,2)] assms(3) by auto

lemma fit_error_value:
  assumes len: "length x = length y"
    and w: "polynomial_regression pinv x y d = Some w" and ne: "w \<noteq> []"
  shows "fit_error pinv x y d = Some (sum_squared_residuals x y w / 2)"
proof -
  have pred: "polynomial (Arr x) w = Some (Arr (map (poly_eval w) x))"
    by (rule polynomial_array [OF ne])
  have "mean_squared_error (Arr y) (Arr (map (poly_eval w) x))
      = Some (half_sum_of_squares y (map (poly_eval w) x))"
    by (rule mean_squared_error_arrays) (simp add: len)
  also have "half_sum_of_squares y (map (poly_eval w) x) = sum_squared_residuals x y w / 2"
    unfolding half_sum_of_squares_def sum_squared_residuals_poly_eval
    using len by simp
  finally show ?thesis
    by (simp add: fit_error_def w pred)
qed

lemma fit_error_monotone:
  assumes len: "length x = length y" and le: "d \<le> d'"
    and mp: "moore_penrose (normal_matrix x d) (pinv (normal_matrix x d))"
    and mp': "moore_penrose (normal_matrix x d') (pinv (normal_matrix x d'))"
  shows "\<exists>e e'. fit_error pinv x y d = Some e \<and> fit_error pinv x y d' = Some e' \<and> e' \<le> e"
proof -
  obtain w where w: "polynomial_regression pinv x y d = Some w"
    using fitter_result [where pinv = pinv, OF len mp] by blast
  obtain w' where w': "polynomial_regression pinv x y d' = Some w'"
    using fitter_result [where pinv = pinv, OF len mp'] by blast
  have lw: "length w = Suc d" by (rule fitter_length [OF len mp w])
  have lw': "length w' = Suc d'" by (rule fitter_length [OF len mp' w'])
  have e: "fit_error pinv x y d = Some (sum_squared_residuals x y w / 2)"
    using lw by (intro fit_error_value [OF len w]) auto
  have e': "fit_error pinv x y d' = Some (sum_squared_residuals x y w' / 2)"
    using lw' by (intro fit_error_value [OF len w']) auto
  have "sum_squared_residuals x y w' \<le> sum_squared_residuals x y (w @ replicate (d' - d) 0)"
    using le lw by (intro fitter_minimal [where pinv = pinv, OF len mp' w']) simp
  then have "sum_squared_residuals x y w' / 2 \<le> sum_squared_residuals x y w / 2"
    by (simp add: sum_squared_residuals_append_zeros)
  with e e' show ?thesis by blast
qed


text \<open>
  C5: for non-empty equal-length sequences \<open>x\<close> and \<open>y\<close>, fitting with degree 0
  returns the single coefficient \<open>sum y / N\<close>, the arithmetic mean of \<open>y\<close>; \<open>pinv\<close>
  is asked to return the Moore-Penrose pseudoinverse of the normal matrix \<open>[[N]]\<close>,
  which NumPy's function does (\<open>degree_zero_pinv_exact\<close> below).
\<close>

theorem fitter_degree_zero_mean:
  assumes ne: "x \<noteq> []" and len: "length x = length y"
    and mp: "moore_penrose (normal_matrix x 0) (pinv (normal_matrix x 0))"
  shows "polynomial_regression pinv x y 0 = Some [sum_list y / real (length y)]"
proof -
  let ?X = "\<lambda>k a. x ! k ^ a"
  let ?F = "fitted (length x) (Suc 0) (entry (pinv (normal_matrix x 0))) ?X ((!) y)"
  have p1: "penrose1 (Suc 0) (gram (length x) ?X) (entry (pinv (normal_matrix x 0)))"
    by (rule moore_penrose_normal_matrix(1) [OF mp])
  have "(\<Sum>l<Suc 0. gram (length x) ?X 0 l * ?F l) = (\<Sum>k<length x. ?X k 0 * y ! k)"
    by (rule normal_equations [OF p1]) simp
  then have "real (length x) * ?F 0 = (\<Sum>k<length x. y ! k)"
    by (simp add: gram_def)
  also have "\<dots> = sum_list y"
    unfolding len by (rule sum_list_as_index_sum [symmetric])
  finally have "real (length x) * ?F 0 = sum_list y" .
  moreover have "real (length x) \<noteq> 0"
    using ne by simp
  ultimately have "?F 0 = sum_list y / real (length x)"
    by (simp add: field_simps)
  then have "map ?F [0..<Suc 0] = [sum_list y / real (length y)]"
    by (simp add: len)
  then show ?thesis
    using fitter_result [where pinv = pinv, OF len mp] by simp
qed


section \<open>Interpolation\<close>

text \<open>
  Distinct nodes carry an interpolating polynomial with as many coefficients as
  nodes. The step from \<open>q\<close> to \<open>b + (t - a) * q t\<close> is Newton's: \<open>q\<close> interpolates
  the divided differences at the remaining nodes.
\<close>

lemma poly_eval_scale: "poly_eval (map ((*) a) q) t = a * poly_eval q t"
  by (induction q) (simp_all add: poly_eval_Nil poly_eval_Cons algebra_simps)

lemma poly_eval_snoc_zero: "poly_eval (q @ [0]) t = poly_eval q t"
  using poly_eval_append_zeros [of q 1 t] by simp

lemma poly_eval_diff:
  "length p = length q \<Longrightarrow> poly_eval (map2 (-) p q) t = poly_eval p t - poly_eval q t"
  by (induction p q rule: list_induct2) (simp_all add: poly_eval_Nil poly_eval_Cons right_diff_distrib)

lemma poly_eval_newton_step:
  "poly_eval (map2 (-) (b # q) (map ((*) a) q @ [0])) t = b + (t - a) * poly_eval q t"
proof -
  have "poly_eval (map2 (-) (b # q) (map ((*) a) q @ [0])) t
      = poly_eval (b # q) t - poly_eval (map ((*) a) q @ [0]) t"
    by (rule poly_eval_diff) simp
  then show ?thesis
    by (simp add: poly_eval_Cons poly_eval_snoc_zero poly_eval_scale algebra_simps)
qed

lemma interpolation_exists:
  assumes "distinct xs" and "length ys = length xs"
  shows "\<exists>v. length v = length xs \<and> (\<forall>k<length xs. poly_eval v (xs ! k) = ys ! k)"
  using assms
proof (induction xs arbitrary: ys)
  case Nil
  then show ?case by simp
next
  case (Cons a xs)
  then obtain b ys' where ys: "ys = b # ys'" and len: "length ys' = length xs"
    by (cases ys) simp_all
  define zs where "zs = map2 (\<lambda>x y. (y - b) / (x - a)) xs ys'"
  have "distinct xs" and "length zs = length xs"
    using Cons.prems len by (simp_all add: zs_def)
  then obtain q where q: "length q = length xs"
    and q_at: "\<forall>k<length xs. poly_eval q (xs ! k) = zs ! k"
    using Cons.IH by blast
  define v where "v = map2 (-) (b # q) (map ((*) a) q @ [0])"
  have "length v = length (a # xs)"
    by (simp add: v_def q)
  moreover have "poly_eval v ((a # xs) ! k) = ys ! k" if k: "k < length (a # xs)" for k
  proof (cases k)
    case 0
    then show ?thesis
      unfolding v_def poly_eval_newton_step by (simp add: ys)
  next
    case (Suc j)
    then have j: "j < length xs" using k by simp
    then have "xs ! j \<in> set xs" by simp
    then have ne: "xs ! j - a \<noteq> 0"
      using Cons.prems(1) by auto
    have "poly_eval q (xs ! j) = (ys' ! j - b) / (xs ! j - a)"
      using q_at j len by (simp add: zs_def)
    then have "b + (xs ! j - a) * poly_eval q (xs ! j) = ys' ! j"
      using ne by simp
    then show ?thesis
      unfolding v_def poly_eval_newton_step by (simp add: Suc ys)
  qed
  ultimately show ?case by blast
qed

lemma sum_squared_residuals_zero_iff:
  "sum_squared_residuals x y v = 0 \<longleftrightarrow> (\<forall>k<length x. poly_eval v (x ! k) = y ! k)"
proof -
  have "sum_squared_residuals x y v = 0
      \<longleftrightarrow> (\<forall>k\<in>{..<length x}. (y ! k - poly_eval v (x ! k))\<^sup>2 = 0)"
    unfolding sum_squared_residuals_poly_eval
    by (rule sum_nonneg_eq_0_iff) simp_all
  then show ?thesis by auto
qed

lemma sum_squared_residuals_nonneg: "0 \<le> sum_squared_residuals x y v"
  by (simp add: sum_squared_residuals_def sum_nonneg)

text \<open>
  With at least as many coefficients as distinct points the fit is exact: the
  interpolating polynomial, padded with zero coefficients, has no residual, so the
  minimiser has none either.
\<close>

lemma exact_fit:
  assumes dist: "distinct x" and len: "length x = length y" and deg: "length x \<le> Suc d"
    and mp: "moore_penrose (normal_matrix x d) (pinv (normal_matrix x d))"
  shows "\<exists>w. polynomial_regression pinv x y d = Some w
    \<and> polynomial (Arr x) w = Some (Arr y)
    \<and> fit_error pinv x y d = Some 0"
proof -
  obtain w where w: "polynomial_regression pinv x y d = Some w"
    using fitter_result [where pinv = pinv, OF len mp] by blast
  have lw: "length w = Suc d"
    by (rule fitter_length [OF len mp w])
  then have w_ne: "w \<noteq> []" by auto
  obtain v where v: "length v = length x"
    and v_at: "\<forall>k<length x. poly_eval v (x ! k) = y ! k"
    using interpolation_exists [OF dist len [symmetric]] by blast
  have "sum_squared_residuals x y v = 0"
    using v_at by (simp add: sum_squared_residuals_zero_iff)
  then have "sum_squared_residuals x y (v @ replicate (Suc d - length x) 0) = 0"
    by (simp only: sum_squared_residuals_append_zeros)
  moreover have "sum_squared_residuals x y w
      \<le> sum_squared_residuals x y (v @ replicate (Suc d - length x) 0)"
    using v deg by (intro fitter_minimal [where pinv = pinv, OF len mp w]) simp
  ultimately have zero: "sum_squared_residuals x y w = 0"
    using sum_squared_residuals_nonneg [of x y w] by simp
  then have "\<forall>k<length x. poly_eval w (x ! k) = y ! k"
    by (simp add: sum_squared_residuals_zero_iff)
  then have "map (poly_eval w) x = y"
    using len by (intro nth_equalityI) simp_all
  then have "polynomial (Arr x) w = Some (Arr y)"
    using polynomial_array [OF w_ne, of x] by simp
  moreover have "fit_error pinv x y d = Some 0"
    using fit_error_value [OF len w w_ne] zero by simp
  ultimately show ?thesis using w by blast
qed

text \<open>
  C4, amended: for \<open>N \<ge> 1\<close> points with pairwise distinct \<open>x\<close> values, fitting with
  degree \<open>N - 1\<close> interpolates (the Evaluator at the training \<open>x\<close> returns the training
  \<open>y\<close>, and the Scorer's error on the training set is 0, in exact real arithmetic)
  when \<open>pinv\<close> returns the Moore-Penrose pseudoinverse of the normal matrix.
\<close>

theorem fitter_interpolates:
  assumes dist: "distinct x" and ne: "x \<noteq> []" and len: "length x = length y"
    and mp: "moore_penrose (normal_matrix x (length x - 1)) (pinv (normal_matrix x (length x - 1)))"
  shows "\<exists>w. polynomial_regression pinv x y (length x - 1) = Some w
    \<and> polynomial (Arr x) w = Some (Arr y)
    \<and> fit_error pinv x y (length x - 1) = Some 0"
proof -
  have "length x \<le> Suc (length x - 1)"
    by simp
  then show ?thesis
    by (rule exact_fit [where pinv = pinv, OF dist len _ mp])
qed

section \<open>Concrete samples\<close>

lemma upt2: "[0..<2] = [0, 1]"
  by (simp add: upt_rec)

lemma upt10: "[0..<10] = [0, 1, 2, 3, 4, 5, 6, 7, 8, 9]"
  by (simp add: upt_rec)

lemma lessThan2: "{..<2 :: nat} = {0, 1}"
  by auto

lemma lessThan10: "{..<10 :: nat} = {0, 1, 2, 3, 4, 5, 6, 7, 8, 9}"
  by auto

theorem fitter_least_squares_witness:
  "length [- 1, 0, 1 :: real] = length [0, 0, 3 :: real]
   \<and> nrows (pinv_with [(3, [1, 0]), (2, [0, 1])] (normal_matrix [- 1, 0, 1] 1)) = 1 + 1
   \<and> ncols (pinv_with [(3, [1, 0]), (2, [0, 1])] (normal_matrix [- 1, 0, 1] 1)) = 1 + 1
   \<and> moore_penrose (normal_matrix [- 1, 0, 1] 1)
       (pinv_with [(3, [1, 0]), (2, [0, 1])] (normal_matrix [- 1, 0, 1] 1))
   \<and> polynomial_regression (pinv_with [(3, [1, 0]), (2, [0, 1])]) [- 1, 0, 1] [0, 0, 3] 1
       = Some [1, 3 / 2]
   \<and> sum_squared_residuals [- 1, 0, 1] [0, 0, 3] [1, 3 / 2] = 3 / 2
   \<and> sum_squared_residuals [- 1, 0, 1] [0, 0, 3] [1, 3 / 2]
       \<le> sum_squared_residuals [- 1, 0, 1] [0, 0, 3] [0, 1]"
proof -
  let ?pinv = "pinv_with [(3, [1, 0]), (2, [0, 1])]"
  have len: "length [- 1, 0, 1 :: real] = length [0, 0, 3 :: real]"
    by simp
  have rows: "nrows (?pinv (normal_matrix [- 1, 0, 1] 1)) = 1 + 1"
    and cols: "ncols (?pinv (normal_matrix [- 1, 0, 1] 1)) = 1 + 1"
    by code_simp+
  have dec: "spectral_decomposition (normal_matrix [- 1, 0, 1] 1) [(3, [1, 0]), (2, [0, 1])]"
    by code_simp
  have kept: "singular_values_kept default_rcond [(3, [1, 0]), (2, [0, 1])]"
    by code_simp
  have mp: "moore_penrose (normal_matrix [- 1, 0, 1] 1) (?pinv (normal_matrix [- 1, 0, 1] 1))"
    using dec kept by (rule pinv_with_exact)
  have fit: "polynomial_regression ?pinv [- 1, 0, 1] [0, 0, 3] 1 = Some [1, 3 / 2]"
    by code_simp
  have ssr: "sum_squared_residuals [- 1, 0, 1] [0, 0, 3] [1, 3 / 2] = 3 / 2"
    by code_simp
  have "length [0, 1 :: real] = 1 + 1"
    by simp
  with fitter_least_squares [where pinv = ?pinv, OF len rows cols] fit mp
  have "sum_squared_residuals [- 1, 0, 1] [0, 0, 3] [1, 3 / 2]
      \<le> sum_squared_residuals [- 1, 0, 1] [0, 0, 3] [0, 1]"
    by auto
  with len rows cols mp fit ssr show ?thesis by blast
qed


text \<open>
  Two points so close to each other that the second singular value of the normal
  matrix is cut.
\<close>

lemma close_pair_decomposition:
  "spectral_decomposition (normal_matrix [- 1 / 2 ^ 27, 1 / 2 ^ 27] 1)
     [(2, [1, 0]), (1 / 2 ^ 53, [0, 1])]"
  by code_simp

lemma close_pair_cut:
  "\<not> singular_values_kept default_rcond [(2, [1, 0]), (1 / 2 ^ 53, [0, 1])]"
  by code_simp

lemma close_pair_fit:
  "polynomial_regression (pinv_with [(2, [1, 0]), (1 / 2 ^ 53, [0, 1])])
     [- 1 / 2 ^ 27, 1 / 2 ^ 27] [0, 1] 1 = Some [1 / 2, 0]"
  by code_simp

text \<open>
  C1 says that the returned vector minimises the sum of squared residuals for every
  pair of equal-length sequences. For the two points \<open>x = [- 1 / 2 ^ 27, 1 / 2 ^ 27]\<close> and degree 1 the normal
  matrix is diagonal with the entries \<open>2\<close> and \<open>1 / 2 ^ 53\<close>; the second singular value is
  below \<open>1e-15\<close> times the first, so NumPy's pseudoinverse sets it to zero. For
  \<open>y = [0, 1]\<close> the Fitter then returns \<open>[1/2, 0]\<close>, with the sum of squared residuals
  \<open>1/2\<close>, while the vector \<open>[1/2, 2 ^ 26]\<close> has no residual at all. (The inputs are binary
  floating-point numbers, and so are the entries of the design matrix and of the
  normal matrix: forming them involves no rounding.)
\<close>

theorem fitter_not_minimal_counterexample:
  "length [- 1 / 2 ^ 27, 1 / 2 ^ 27 :: real] = length [0, 1 :: real]
   \<and> spectral_decomposition (normal_matrix [- 1 / 2 ^ 27, 1 / 2 ^ 27] 1)
       [(2, [1, 0]), (1 / 2 ^ 53, [0, 1])]
   \<and> polynomial_regression (pinv_with [(2, [1, 0]), (1 / 2 ^ 53, [0, 1])])
       [- 1 / 2 ^ 27, 1 / 2 ^ 27] [0, 1] 1 = Some [1 / 2, 0]
   \<and> length [1 / 2, 2 ^ 26 :: real] = 1 + 1
   \<and> sum_squared_residuals [- 1 / 2 ^ 27, 1 / 2 ^ 27] [0, 1] [1 / 2, 2 ^ 26] = 0
   \<and> sum_squared_residuals [- 1 / 2 ^ 27, 1 / 2 ^ 27] [0, 1] [1 / 2, 0] = 1 / 2"
proof -
  have "sum_squared_residuals [- 1 / 2 ^ 27, 1 / 2 ^ 27] [0, 1] [1 / 2, 2 ^ 26] = 0"
    by code_simp
  moreover have "sum_squared_residuals [- 1 / 2 ^ 27, 1 / 2 ^ 27] [0, 1] [1 / 2, 0] = 1 / 2"
    by code_simp
  ultimately show ?thesis
    using close_pair_decomposition close_pair_fit by simp
qed

theorem fitter_interpolates_witness:
  "distinct [- 1, 1 :: real] \<and> [- 1, 1 :: real] \<noteq> []
   \<and> length [- 1, 1 :: real] = length [1, 3 :: real]
   \<and> moore_penrose (normal_matrix [- 1, 1] 1)
       (pinv_with [(2, [1, 0]), (2, [0, 1])] (normal_matrix [- 1, 1] 1))
   \<and> polynomial_regression (pinv_with [(2, [1, 0]), (2, [0, 1])]) [- 1, 1] [1, 3] 1 = Some [2, 1]
   \<and> polynomial (Arr [- 1, 1]) [2, 1] = Some (Arr [1, 3])
   \<and> fit_error (pinv_with [(2, [1, 0]), (2, [0, 1])]) [- 1, 1] [1, 3] 1 = Some 0"
proof -
  let ?pinv = "pinv_with [(2, [1, 0]), (2, [0, 1])]"
  have dist: "distinct [- 1, 1 :: real]" and ne: "[- 1, 1 :: real] \<noteq> []"
    and len: "length [- 1, 1 :: real] = length [1, 3 :: real]"
    by simp_all
  have deg: "length [- 1, 1 :: real] - 1 = 1"
    by simp
  have dec: "spectral_decomposition (normal_matrix [- 1, 1] 1) [(2, [1, 0]), (2, [0, 1])]"
    by code_simp
  have kept: "singular_values_kept default_rcond [(2, [1, 0]), (2, [0, 1])]"
    by code_simp
  have mp: "moore_penrose (normal_matrix [- 1, 1] 1) (?pinv (normal_matrix [- 1, 1] 1))"
    using dec kept by (rule pinv_with_exact)
  have fit: "polynomial_regression ?pinv [- 1, 1] [1, 3] 1 = Some [2, 1]"
    by code_simp
  from fitter_interpolates [where pinv = ?pinv, OF dist ne len] mp fit
  have "polynomial (Arr [- 1, 1]) [2, 1] = Some (Arr [1, 3])
      \<and> fit_error ?pinv [- 1, 1] [1, 3] 1 = Some 0"
    unfolding deg by auto
  with dist ne len mp fit show ?thesis by blast
qed

text \<open>
  C4 says that the fit of degree \<open>N - 1\<close> interpolates every sample with pairwise
  distinct \<open>x\<close> values. For the two distinct points \<open>x = [- 1 / 2 ^ 27, 1 / 2 ^ 27]\<close> with \<open>y = [0, 1]\<close> the
  Fitter returns the constant \<open>1/2\<close> at degree 1, since NumPy's pseudoinverse cuts the
  second singular value of the normal matrix off: the Evaluator returns \<open>[1/2, 1/2]\<close>
  at the training \<open>x\<close>, and the Scorer's error is \<open>1/4\<close>.
\<close>

theorem fitter_not_interpolating_counterexample:
  "distinct [- 1 / 2 ^ 27, 1 / 2 ^ 27 :: real]
   \<and> length [- 1 / 2 ^ 27, 1 / 2 ^ 27 :: real] = length [0, 1 :: real]
   \<and> length [- 1 / 2 ^ 27, 1 / 2 ^ 27 :: real] - 1 = 1
   \<and> spectral_decomposition (normal_matrix [- 1 / 2 ^ 27, 1 / 2 ^ 27] 1)
       [(2, [1, 0]), (1 / 2 ^ 53, [0, 1])]
   \<and> polynomial_regression (pinv_with [(2, [1, 0]), (1 / 2 ^ 53, [0, 1])])
       [- 1 / 2 ^ 27, 1 / 2 ^ 27] [0, 1] 1 = Some [1 / 2, 0]
   \<and> polynomial (Arr [- 1 / 2 ^ 27, 1 / 2 ^ 27]) [1 / 2, 0] = Some (Arr [1 / 2, 1 / 2])
   \<and> fit_error (pinv_with [(2, [1, 0]), (1 / 2 ^ 53, [0, 1])])
       [- 1 / 2 ^ 27, 1 / 2 ^ 27] [0, 1] 1 = Some (1 / 4)"
proof -
  have "polynomial (Arr [- 1 / 2 ^ 27, 1 / 2 ^ 27]) [1 / 2, 0] = Some (Arr [1 / 2, 1 / 2])"
    by code_simp
  moreover have "fit_error (pinv_with [(2, [1, 0]), (1 / 2 ^ 53, [0, 1])])
      [- 1 / 2 ^ 27, 1 / 2 ^ 27] [0, 1] 1 = Some (1 / 4)"
    by code_simp
  ultimately show ?thesis
    using close_pair_decomposition close_pair_fit by simp
qed

theorem fitter_degree_zero_mean_witness:
  "[1, 2, 3 :: real] \<noteq> [] \<and> length [1, 2, 3 :: real] = length [2, 4, 9 :: real]
   \<and> moore_penrose (normal_matrix [1, 2, 3] 0) (pinv_with [(3, [1])] (normal_matrix [1, 2, 3] 0))
   \<and> polynomial_regression (pinv_with [(3, [1])]) [1, 2, 3] [2, 4, 9] 0 = Some [5]"
proof -
  have ne: "[1, 2, 3 :: real] \<noteq> []" and len: "length [1, 2, 3 :: real] = length [2, 4, 9 :: real]"
    by simp_all
  have dec: "spectral_decomposition (normal_matrix [1, 2, 3] 0) [(3, [1])]"
    by code_simp
  have kept: "singular_values_kept default_rcond [(3, [1])]"
    by code_simp
  have mp: "moore_penrose (normal_matrix [1, 2, 3] 0) (pinv_with [(3, [1])] (normal_matrix [1, 2, 3] 0))"
    using dec kept by (rule pinv_with_exact)
  from fitter_degree_zero_mean [where pinv = "pinv_with [(3, [1])]", OF ne len mp]
  have "polynomial_regression (pinv_with [(3, [1])]) [1, 2, 3] [2, 4, 9] 0 = Some [5]"
    by simp
  with ne len mp show ?thesis by blast
qed

section \<open>Singular values and the Frobenius norm\<close>

text \<open>
  The Cauchy-Schwarz inequality bounds a matrix-vector product by the Frobenius norm,
  hence every eigenvalue of a decomposed matrix from above by its Frobenius norm and,
  where a left inverse exists, from below by the Frobenius norm of that inverse.
\<close>

lemma cauchy_schwarz_sum:
  fixes a b :: "nat \<Rightarrow> real"
  shows "(\<Sum>i<n. a i * b i)\<^sup>2 \<le> (\<Sum>i<n. (a i)\<^sup>2) * (\<Sum>i<n. (b i)\<^sup>2)"
proof -
  have expand: "(a i * b l - a l * b i)\<^sup>2
      = (a i)\<^sup>2 * (b l)\<^sup>2 + (a l)\<^sup>2 * (b i)\<^sup>2 - 2 * ((a i * b i) * (a l * b l))" for i l
    by (simp add: power2_eq_square algebra_simps)
  have sq: "(\<Sum>i<n. \<Sum>l<n. (a i)\<^sup>2 * (b l)\<^sup>2) = (\<Sum>i<n. (a i)\<^sup>2) * (\<Sum>i<n. (b i)\<^sup>2)"
    by (simp add: sum_product)
  have sq': "(\<Sum>i<n. \<Sum>l<n. (a l)\<^sup>2 * (b i)\<^sup>2) = (\<Sum>i<n. (a i)\<^sup>2) * (\<Sum>i<n. (b i)\<^sup>2)"
    by (subst sum.swap) (simp add: sum_product)
  have cross: "(\<Sum>i<n. \<Sum>l<n. (a i * b i) * (a l * b l)) = (\<Sum>i<n. a i * b i)\<^sup>2"
    by (simp add: power2_eq_square sum_product)
  have "0 \<le> (\<Sum>i<n. \<Sum>l<n. (a i * b l - a l * b i)\<^sup>2)"
    by (intro sum_nonneg) simp
  also have "\<dots> = (\<Sum>i<n. \<Sum>l<n. (a i)\<^sup>2 * (b l)\<^sup>2) + (\<Sum>i<n. \<Sum>l<n. (a l)\<^sup>2 * (b i)\<^sup>2)
      - 2 * (\<Sum>i<n. \<Sum>l<n. (a i * b i) * (a l * b l))"
    unfolding expand by (simp add: sum.distrib sum_subtractf sum_distrib_left)
  finally show ?thesis
    unfolding sq sq' cross by simp
qed

lemma matvec_norm_bound:
  fixes M :: "nat \<Rightarrow> nat \<Rightarrow> real"
  shows "(\<Sum>i<n. (\<Sum>l<m. M i l * q l)\<^sup>2) \<le> (\<Sum>i<n. \<Sum>l<m. (M i l)\<^sup>2) * (\<Sum>l<m. (q l)\<^sup>2)"
proof -
  have "(\<Sum>i<n. (\<Sum>l<m. M i l * q l)\<^sup>2) \<le> (\<Sum>i<n. (\<Sum>l<m. (M i l)\<^sup>2) * (\<Sum>l<m. (q l)\<^sup>2))"
    by (intro sum_mono cauchy_schwarz_sum)
  then show ?thesis by (simp add: sum_distrib_right)
qed

lemma fold_max_cases: "fold max xs (a :: real) = a \<or> fold max xs a \<in> set xs"
proof (induction xs arbitrary: a)
  case Nil
  then show ?case by simp
next
  case (Cons x xs)
  then show ?case
    using Cons.IH [of "max x a"] by (auto simp: max_def split: if_splits)
qed

text \<open>Every pair of a spectral decomposition is an eigenpair of the matrix.\<close>

lemma spectral_eigenpair:
  assumes dec: "spectral_decomposition A sp" and j: "j < length sp" and i: "i < nrows A"
  shows "(\<Sum>l<nrows A. entry A i l * snd (sp ! j) ! l) = fst (sp ! j) * snd (sp ! j) ! i"
proof -
  define n where "n = nrows A"
  let ?q = "\<lambda>k. snd (sp ! k)"
  let ?c = "\<lambda>k. dot (?q k) (?q k)"
  have dec_eq: "A = spectral_matrix n sp"
    and dec_elems: "list_all (\<lambda>(s, q). 0 < s \<and> length q = n \<and> dot q q \<noteq> 0) sp"
    and dec_orth: "list_all (\<lambda>j. list_all (\<lambda>k. j = k \<or> dot (snd (sp ! j)) (snd (sp ! k)) = 0)
          [0..<length sp]) [0..<length sp]"
    using dec unfolding spectral_decomposition_def n_def by blast+
  have A: "A = mk_matrix n n (spectral_entry sp (\<lambda>s. s))"
    using dec_eq spectral_matrix_entries_id [of n sp] by (rule trans)
  have elems: "length (?q k) = n \<and> ?c k \<noteq> 0" if "k < length sp" for k
  proof -
    have "sp ! k \<in> set sp" using that by simp
    then show ?thesis
      using dec_elems by (auto simp: list_all_iff split_def)
  qed
  have orth: "dot (?q k) (?q j) = 0" if "k < length sp" and "k \<noteq> j" for k
  proof -
    have "\<forall>j\<in>set [0..<length sp]. \<forall>k\<in>set [0..<length sp].
        j = k \<or> dot (snd (sp ! j)) (snd (sp ! k)) = 0"
      using dec_orth by (simp add: list_all_iff)
    moreover have "j \<in> set [0..<length sp]" "k \<in> set [0..<length sp]"
      using j that by simp_all
    ultimately show ?thesis using that by blast
  qed
  have entries: "entry A i l = spectral_entry sp (\<lambda>s. s) i l" if "l < n" for l
    using that i by (subst A) (simp add: n_def)
  have "(\<Sum>l<n. entry A i l * ?q j ! l) = (\<Sum>l<n. spectral_entry sp (\<lambda>s. s) i l * ?q j ! l)"
    by (intro sum.cong refl) (simp add: entries)
  also have "\<dots> = (\<Sum>l<n. \<Sum>k<length sp. (fst (sp ! k) * ?q k ! i / ?c k) * (?q k ! l * ?q j ! l))"
    unfolding spectral_entry_def sum_distrib_right
    by (intro sum.cong refl) (simp add: mult_ac)
  also have "\<dots> = (\<Sum>k<length sp. \<Sum>l<n. (fst (sp ! k) * ?q k ! i / ?c k) * (?q k ! l * ?q j ! l))"
    by (rule sum.swap)
  also have "\<dots> = (\<Sum>k<length sp. (fst (sp ! k) * ?q k ! i / ?c k) * dot (?q k) (?q j))"
    using elems j by (intro sum.cong refl) (simp add: sum_distrib_left dot_index [of _ n])
  also have "\<dots> = (\<Sum>k<length sp. if k = j then fst (sp ! j) * ?q j ! i else 0)"
    using elems orth by (intro sum.cong refl) simp
  also have "\<dots> = fst (sp ! j) * ?q j ! i"
    using j by (simp add: sum.delta)
  finally show ?thesis by (simp add: n_def)
qed

lemma sum_unit_left:
  fixes f :: "nat \<Rightarrow> real"
  assumes "i < n"
  shows "(\<Sum>l<n. (if i = l then 1 else 0) * f l) = f i"
proof -
  have "(\<Sum>l<n. (if i = l then 1 else 0) * f l) = (\<Sum>l<n. if l = i then f l else 0)"
    by (intro sum.cong refl) simp
  then show ?thesis using assms by simp
qed

lemma sum_unit_right:
  fixes f :: "nat \<Rightarrow> real"
  assumes "j < n"
  shows "(\<Sum>k<n. f k * (if k = j then 1 else 0)) = f j"
proof -
  have "(\<Sum>k<n. f k * (if k = j then 1 else 0)) = (\<Sum>k<n. if k = j then f k else 0)"
    by (intro sum.cong refl) simp
  then show ?thesis using assms by simp
qed

lemma frobenius_nonneg: "0 \<le> frobenius M"
  unfolding frobenius_def by (intro sum_nonneg) simp

lemma spectral_vector:
  assumes dec: "spectral_decomposition A sp" and j: "j < length sp"
  shows "0 < fst (sp ! j) \<and> length (snd (sp ! j)) = nrows A
    \<and> 0 < (\<Sum>l<nrows A. (snd (sp ! j) ! l)\<^sup>2)"
proof -
  have elems: "list_all (\<lambda>(s, q). 0 < s \<and> length q = nrows A \<and> dot q q \<noteq> 0) sp"
    using dec unfolding spectral_decomposition_def by blast
  have "sp ! j \<in> set sp" using j by simp
  then have s: "0 < fst (sp ! j)" and len: "length (snd (sp ! j)) = nrows A"
    and nz: "dot (snd (sp ! j)) (snd (sp ! j)) \<noteq> 0"
    using elems by (auto simp: list_all_iff split_def)
  have "dot (snd (sp ! j)) (snd (sp ! j)) = (\<Sum>l<nrows A. (snd (sp ! j) ! l)\<^sup>2)"
    by (simp add: dot_index [OF len len] power2_eq_square)
  moreover have "0 \<le> (\<Sum>l<nrows A. (snd (sp ! j) ! l)\<^sup>2)"
    by (intro sum_nonneg) simp
  ultimately have "0 < (\<Sum>l<nrows A. (snd (sp ! j) ! l)\<^sup>2)"
    using nz by simp
  with s len show ?thesis by blast
qed

text \<open>No eigenvalue exceeds the Frobenius norm.\<close>

lemma eigenvalue_upper:
  assumes dec: "spectral_decomposition A sp" and j: "j < length sp"
  shows "(fst (sp ! j))\<^sup>2 \<le> frobenius A"
proof -
  define n where "n = nrows A"
  define s where "s = fst (sp ! j)"
  define q where "q l = snd (sp ! j) ! l" for l
  define N where "N = (\<Sum>l<n. (q l)\<^sup>2)"
  have cols: "ncols A = n"
    using dec unfolding spectral_decomposition_def n_def by blast
  have N: "0 < N"
    using spectral_vector [OF dec j] by (simp add: N_def q_def n_def)
  have eig: "(\<Sum>l<n. entry A i l * q l) = s * q i" if "i < n" for i
    using spectral_eigenpair [OF dec j, of i] that by (simp add: n_def s_def q_def)
  have "s\<^sup>2 * N = (\<Sum>i<n. (s * q i)\<^sup>2)"
    by (simp add: N_def sum_distrib_left power_mult_distrib)
  also have "\<dots> = (\<Sum>i<n. (\<Sum>l<n. entry A i l * q l)\<^sup>2)"
    by (intro sum.cong refl) (simp add: eig)
  also have "\<dots> \<le> (\<Sum>i<n. \<Sum>l<n. (entry A i l)\<^sup>2) * (\<Sum>l<n. (q l)\<^sup>2)"
    by (rule matvec_norm_bound)
  also have "\<dots> = frobenius A * N"
    by (simp add: frobenius_def N_def n_def [symmetric] cols)
  finally have "s\<^sup>2 * N \<le> frobenius A * N" .
  with N show ?thesis by (simp add: s_def)
qed

text \<open>The Frobenius norm of a left inverse bounds every eigenvalue from below.\<close>

lemma eigenvalue_lower:
  assumes dec: "spectral_decomposition A sp" and j: "j < length sp"
    and rows: "nrows B = nrows A" and cols: "ncols B = nrows A"
    and inv: "mat_mul B A = identity_matrix (nrows A)"
  shows "1 \<le> (fst (sp ! j))\<^sup>2 * frobenius B"
proof -
  define n where "n = nrows A"
  define s where "s = fst (sp ! j)"
  define q where "q l = snd (sp ! j) ! l" for l
  define N where "N = (\<Sum>l<n. (q l)\<^sup>2)"
  have colsA: "ncols A = n"
    using dec unfolding spectral_decomposition_def n_def by blast
  have N: "0 < N"
    using spectral_vector [OF dec j] by (simp add: N_def q_def n_def)
  have eig: "(\<Sum>l<n. entry A k l * q l) = s * q k" if "k < n" for k
    using spectral_eigenpair [OF dec j, of k] that by (simp add: n_def s_def q_def)
  have unit: "(\<Sum>k<n. entry B i k * entry A k l) = (if i = l then 1 else 0)"
    if "i < n" and "l < n" for i l
  proof -
    have "entry (mat_mul B A) i l = entry (identity_matrix n) i l"
      using inv by (simp add: n_def)
    then show ?thesis
      using that by (simp add: mat_mul_def identity_matrix_def rows cols colsA n_def [symmetric])
  qed
  have solve: "q i = s * (\<Sum>k<n. entry B i k * q k)" if "i < n" for i
  proof -
    have "q i = (\<Sum>l<n. (if i = l then 1 else 0) * q l)"
      using that by (simp add: sum_unit_left)
    also have "\<dots> = (\<Sum>l<n. (\<Sum>k<n. entry B i k * entry A k l) * q l)"
      using that by (intro sum.cong refl) (simp only: unit lessThan_iff)
    also have "\<dots> = (\<Sum>l<n. \<Sum>k<n. entry B i k * (entry A k l * q l))"
      by (simp add: sum_distrib_right mult.assoc)
    also have "\<dots> = (\<Sum>k<n. \<Sum>l<n. entry B i k * (entry A k l * q l))"
      by (rule sum.swap)
    also have "\<dots> = (\<Sum>k<n. entry B i k * (\<Sum>l<n. entry A k l * q l))"
      by (simp add: sum_distrib_left)
    also have "\<dots> = (\<Sum>k<n. entry B i k * (s * q k))"
      by (intro sum.cong refl) (simp add: eig)
    also have "\<dots> = s * (\<Sum>k<n. entry B i k * q k)"
      by (simp add: sum_distrib_left mult_ac)
    finally show ?thesis .
  qed
  have "N = (\<Sum>i<n. (s * (\<Sum>k<n. entry B i k * q k))\<^sup>2)"
    unfolding N_def using solve by (intro sum.cong refl) simp
  also have "\<dots> = s\<^sup>2 * (\<Sum>i<n. (\<Sum>k<n. entry B i k * q k)\<^sup>2)"
    unfolding power_mult_distrib by (rule sum_distrib_left [symmetric])
  also have "\<dots> \<le> s\<^sup>2 * ((\<Sum>i<n. \<Sum>k<n. (entry B i k)\<^sup>2) * (\<Sum>k<n. (q k)\<^sup>2))"
    by (intro mult_left_mono matvec_norm_bound) simp
  also have "\<dots> = (s\<^sup>2 * frobenius B) * N"
    by (simp add: frobenius_def N_def rows cols n_def [symmetric])
  finally have "1 * N \<le> (s\<^sup>2 * frobenius B) * N" by simp
  with N show ?thesis
    unfolding s_def by (simp only: mult_le_cancel_right_pos)
qed

text \<open>
  A matrix with a left inverse whose Frobenius norm, times its own and the squared
  cutoff ratio, stays below one loses no singular value to the cutoff, whatever
  decomposition is computed.
\<close>

lemma singular_values_kept_of_inverse:
  assumes dec: "spectral_decomposition A sp"
    and rows: "nrows B = nrows A" and cols: "ncols B = nrows A"
    and inv: "mat_mul B A = identity_matrix (nrows A)"
    and rcond: "0 \<le> rcond"
    and small: "rcond\<^sup>2 * frobenius A * frobenius B < 1"
  shows "singular_values_kept rcond sp"
proof -
  define m where "m = fold max (map fst sp) 0"
  have "rcond * m < fst (sp ! j)" if j: "j < length sp" for j
  proof -
    define s where "s = fst (sp ! j)"
    have s: "0 < s"
      using spectral_vector [OF dec j] by (simp add: s_def)
    have low: "1 \<le> s\<^sup>2 * frobenius B"
      unfolding s_def by (rule eigenvalue_lower [OF dec j rows cols inv])
    consider "m = 0" | "m \<in> set (map fst sp)"
      using fold_max_cases [of "map fst sp" 0] by (auto simp: m_def)
    then show ?thesis
    proof cases
      case 1
      then show ?thesis using s by (simp add: s_def)
    next
      case 2
      then obtain k where k: "k < length sp" and mk: "m = fst (sp ! k)"
        by (auto simp: in_set_conv_nth)
      have m: "0 < m"
        using spectral_vector [OF dec k] by (simp add: mk)
      have up: "m\<^sup>2 \<le> frobenius A"
        unfolding mk by (rule eigenvalue_upper [OF dec k])
      show ?thesis
      proof (rule ccontr)
        assume "\<not> rcond * m < fst (sp ! j)"
        then have "s \<le> rcond * m" by (simp add: s_def)
        then have "s\<^sup>2 \<le> (rcond * m)\<^sup>2"
          using s by (intro power_mono) simp_all
        also have "\<dots> = rcond\<^sup>2 * m\<^sup>2"
          by (simp add: power_mult_distrib)
        also have "\<dots> \<le> rcond\<^sup>2 * frobenius A"
          using up by (intro mult_left_mono) simp_all
        finally have "s\<^sup>2 * frobenius B \<le> (rcond\<^sup>2 * frobenius A) * frobenius B"
          by (intro mult_right_mono frobenius_nonneg)
        with low small show False by simp
      qed
    qed
  qed
  then have "\<forall>p\<in>set sp. rcond * m < fst p"
    by (metis in_set_conv_nth)
  then show ?thesis
    unfolding singular_values_kept_def m_def by (simp add: list_all_iff split_def)
qed

section \<open>Inverses\<close>

lemma mk_matrix_entries:
  assumes "well_formed M"
  shows "mk_matrix (nrows M) (ncols M) (entry M) = M"
proof -
  have len: "length (entries M) = nrows M"
    using assms unfolding well_formed_def by simp
  have row: "length (entries M ! i) = ncols M" if "i < nrows M" for i
    using assms that unfolding well_formed_def by (auto simp: list_all_length)
  have "map (\<lambda>i. map (\<lambda>j. entries M ! i ! j) [0..<ncols M]) [0..<nrows M] = entries M"
  proof (rule nth_equalityI)
    show "length (map (\<lambda>i. map (\<lambda>j. entries M ! i ! j) [0..<ncols M]) [0..<nrows M])
        = length (entries M)"
      by (simp add: len)
  next
    fix i
    assume "i < length (map (\<lambda>i. map (\<lambda>j. entries M ! i ! j) [0..<ncols M]) [0..<nrows M])"
    then have i: "i < nrows M" by simp
    have "map (\<lambda>j. entries M ! i ! j) [0..<ncols M] = entries M ! i"
      by (rule nth_equalityI) (simp_all add: row [OF i])
    then show "map (\<lambda>i. map (\<lambda>j. entries M ! i ! j) [0..<ncols M]) [0..<nrows M] ! i
        = entries M ! i"
      using i by simp
  qed
  then show ?thesis
    by (simp add: mk_matrix_def entry_def len)
qed

lemma mat_mul_identity_left:
  assumes "well_formed M" and "nrows M = n"
  shows "mat_mul (identity_matrix n) M = M"
proof -
  have "mat_mul (identity_matrix n) M = mk_matrix n (ncols M) (entry M)"
    unfolding mat_mul_def
    by (simp add: identity_matrix_def, rule mk_matrix_cong)
      (simp add: identity_matrix_def assms(2) sum_unit_left sum_unit_right)
  then show ?thesis
    using mk_matrix_entries [OF assms(1)] assms(2) by simp
qed

lemma mat_mul_identity_right:
  assumes "well_formed M" and "ncols M = n"
  shows "mat_mul M (identity_matrix n) = M"
proof -
  have "mat_mul M (identity_matrix n) = mk_matrix (nrows M) n (entry M)"
    unfolding mat_mul_def
    by (simp add: identity_matrix_def, rule mk_matrix_cong)
      (simp add: identity_matrix_def assms(2) sum_unit_left sum_unit_right)
  then show ?thesis
    using mk_matrix_entries [OF assms(1)] assms(2) by simp
qed

lemma np_transpose_identity: "np_transpose (identity_matrix n) = identity_matrix n"
  unfolding np_transpose_def
  by (simp add: identity_matrix_def, rule mk_matrix_cong) (auto simp: identity_matrix_def)


lemma mat_mul_assoc:
  assumes "ncols X = nrows Y" and "ncols Y = nrows Z"
  shows "mat_mul (mat_mul X Y) Z = mat_mul X (mat_mul Y Z)"
proof -
  have "(\<Sum>k<ncols Y. (\<Sum>a<ncols X. entry X i a * entry Y a k) * entry Z k j)
      = (\<Sum>a<ncols X. entry X i a * (\<Sum>k<ncols Y. entry Y a k * entry Z k j))" for i j
  proof -
    have "(\<Sum>k<ncols Y. (\<Sum>a<ncols X. entry X i a * entry Y a k) * entry Z k j)
        = (\<Sum>k<ncols Y. \<Sum>a<ncols X. entry X i a * (entry Y a k * entry Z k j))"
      by (simp add: sum_distrib_right mult.assoc)
    also have "\<dots> = (\<Sum>a<ncols X. \<Sum>k<ncols Y. entry X i a * (entry Y a k * entry Z k j))"
      by (rule sum.swap)
    finally show ?thesis by (simp add: sum_distrib_left)
  qed
  then show ?thesis
    unfolding mat_mul_def
    by (simp, intro mk_matrix_cong) (simp add: assms)
qed

text \<open>Where a two-sided inverse exists, it is the only Moore-Penrose pseudoinverse.\<close>

lemma moore_penrose_inverse_unique:
  assumes mp: "moore_penrose A P"
    and "well_formed B"
    and "nrows A = n" and "ncols A = n" and "nrows B = n" and "ncols B = n"
    and right: "mat_mul A B = identity_matrix n"
    and left: "mat_mul B A = identity_matrix n"
  shows "P = B"
proof -
  have P: "well_formed P" "nrows P = n" "ncols P = n" and APA: "mat_mul (mat_mul A P) A = A"
    using mp assms(3,4) unfolding moore_penrose_def by simp_all
  have "mat_mul A (mat_mul P (mat_mul A B)) = mat_mul (mat_mul A P) (mat_mul A B)"
    using P assms(3-6) by (intro mat_mul_assoc [symmetric]) (simp_all add: mat_mul_def)
  also have "\<dots> = mat_mul (mat_mul (mat_mul A P) A) B"
    using P assms(3-6) by (intro mat_mul_assoc [symmetric]) (simp_all add: mat_mul_def)
  also have "\<dots> = identity_matrix n"
    by (simp only: APA right)
  finally have inner: "mat_mul A (mat_mul P (mat_mul A B)) = identity_matrix n" .
  have "P = mat_mul (identity_matrix n) (mat_mul P (identity_matrix n))"
    using P by (simp add: mat_mul_identity_left mat_mul_identity_right)
  also have "\<dots> = mat_mul (mat_mul B A) (mat_mul P (mat_mul A B))"
    by (simp only: right left)
  also have "\<dots> = mat_mul B (mat_mul A (mat_mul P (mat_mul A B)))"
    using P assms(3-6) by (intro mat_mul_assoc) (simp_all add: mat_mul_def)
  also have "\<dots> = mat_mul B (identity_matrix n)"
    by (simp only: inner)
  also have "\<dots> = B"
    using assms(2,6) by (rule mat_mul_identity_right)
  finally show ?thesis .
qed

section \<open>The degree-9 fit on the driver's sample\<close>

lemma driver_grid_linspace: "np_linspace 0 1 10 = Some driver_grid"
  by (simp add: np_linspace_def driver_grid_def Let_def upt10)

lemma driver_sample:
  assumes "generate_noisy_sin_points rng 10 noise_level = Some (Arr x, Arr y)"
  shows "x = driver_grid \<and> length y = 10"
  using assms
  by (auto simp: generate_noisy_sin_points_def driver_grid_linspace np_random_normal_def
      np_multiply_def np_add_def np_sin_def driver_grid_def split: if_splits)

lemma driver_normal_matrix_eval: "normal_matrix driver_grid 9 = driver_normal_matrix"
  by (simp add: normal_matrix_def mat_mul_def np_transpose_def np_vander_def mk_matrix_def entry_def
      driver_grid_def driver_normal_matrix_def upt10 lessThan10 power_divide)

lemma driver_inverse_left: "mat_mul driver_inverse driver_normal_matrix = identity_matrix 10"
  by (simp add: mat_mul_def mk_matrix_def entry_def identity_matrix_def
      driver_inverse_def driver_normal_matrix_def upt10 lessThan10)

lemma driver_condition:
  "default_rcond\<^sup>2 * frobenius driver_normal_matrix * frobenius driver_inverse < 1"
  by (simp add: frobenius_def entry_def default_rcond_def
      driver_inverse_def driver_normal_matrix_def lessThan10 power_divide)

lemma np_transpose_mat_mul:
  assumes "ncols X = nrows Y"
  shows "np_transpose (mat_mul X Y) = mat_mul (np_transpose Y) (np_transpose X)"
  unfolding np_transpose_def mat_mul_def
  by (simp, intro mk_matrix_cong) (simp add: assms mult.commute)

lemma driver_normal_matrix_symmetric: "np_transpose driver_normal_matrix = driver_normal_matrix"
  by (simp add: np_transpose_def mk_matrix_def entry_def driver_normal_matrix_def upt10)

lemma driver_inverse_symmetric: "np_transpose driver_inverse = driver_inverse"
  by (simp add: np_transpose_def mk_matrix_def entry_def driver_inverse_def upt10)

lemma driver_inverse_right: "mat_mul driver_normal_matrix driver_inverse = identity_matrix 10"
proof -
  have "mat_mul driver_normal_matrix driver_inverse
      = mat_mul (np_transpose driver_normal_matrix) (np_transpose driver_inverse)"
    by (simp only: driver_normal_matrix_symmetric driver_inverse_symmetric)
  also have "\<dots> = np_transpose (mat_mul driver_inverse driver_normal_matrix)"
    by (rule np_transpose_mat_mul [symmetric])
      (simp add: driver_inverse_def driver_normal_matrix_def)
  finally show ?thesis
    by (simp only: driver_inverse_left np_transpose_identity)
qed

lemma driver_matrices_well_formed:
  "well_formed driver_normal_matrix" "well_formed driver_inverse"
  by (simp_all add: well_formed_def driver_normal_matrix_def driver_inverse_def)

lemma driver_matrices_dims:
  "nrows driver_normal_matrix = 10" "ncols driver_normal_matrix = 10"
  "nrows driver_inverse = 10" "ncols driver_inverse = 10"
  by (simp_all add: driver_normal_matrix_def driver_inverse_def)


text \<open>
  On the driver's grid no singular value of the degree-9 normal matrix is cut,
  whatever decomposition \<^verbatim>\<open>np.linalg.pinv\<close> computes, and its result is the exact
  inverse.
\<close>

lemma driver_singular_values_kept:
  assumes "spectral_decomposition (normal_matrix driver_grid 9) sp"
  shows "singular_values_kept default_rcond sp"
proof -
  have dec: "spectral_decomposition driver_normal_matrix sp"
    using assms by (simp only: driver_normal_matrix_eval)
  show ?thesis
    using dec _ _ _ _ driver_condition
    by (rule singular_values_kept_of_inverse)
      (simp_all add: driver_matrices_dims driver_inverse_left default_rcond_def)
qed

lemma driver_numpy_pinv:
  assumes "spectral_decomposition (normal_matrix driver_grid 9) sp"
  shows "np_linalg_pinv default_rcond (normal_matrix driver_grid 9) sp = driver_inverse"
proof -
  have "moore_penrose (normal_matrix driver_grid 9)
      (np_linalg_pinv default_rcond (normal_matrix driver_grid 9) sp)"
    using assms driver_singular_values_kept [OF assms] by (rule np_linalg_pinv_exact)
  then have "moore_penrose driver_normal_matrix
      (np_linalg_pinv default_rcond (normal_matrix driver_grid 9) sp)"
    by (simp only: driver_normal_matrix_eval)
  then show ?thesis
    using driver_matrices_well_formed(2) driver_matrices_dims driver_inverse_right
      driver_inverse_left
    by (rule moore_penrose_inverse_unique)
qed

text \<open>At degree 0 the normal matrix is \<open>[[N]]\<close>, and its singular value is never cut.\<close>

lemma degree_zero_singular_values_kept:
  assumes "x \<noteq> []" and dec: "spectral_decomposition (normal_matrix x 0) sp"
  shows "singular_values_kept default_rcond sp"
proof -
  define B where "B = mk_matrix 1 1 (\<lambda>i j. 1 / real (length x))"
  have pos: "0 < real (length x)"
    using assms(1) by simp
  have A: "normal_matrix x 0 = mk_matrix 1 1 (\<lambda>i j. real (length x))"
    by (simp add: normal_matrix_def mat_mul_def np_transpose_def np_vander_def, rule mk_matrix_cong)
      simp
  have inv: "mat_mul B (normal_matrix x 0) = identity_matrix (nrows (normal_matrix x 0))"
    unfolding A B_def mat_mul_def identity_matrix_def
    using pos by (simp, intro mk_matrix_cong) simp
  have "frobenius (normal_matrix x 0) * frobenius B = 1"
    unfolding A using pos by (simp add: frobenius_def B_def power_divide)
  then have "default_rcond\<^sup>2 * frobenius (normal_matrix x 0) * frobenius B < 1"
    by (simp add: default_rcond_def mult.assoc power_divide)
  with dec _ _ inv _ show ?thesis
    by (rule singular_values_kept_of_inverse) (simp_all add: B_def default_rcond_def)
qed

text \<open>
  The driver's sample: whatever the generator draws and whatever decompositions
  \<^verbatim>\<open>np.linalg.pinv\<close> computes for the two normal matrices, both fits return and the
  degree-9 error is at most the degree-0 error.
\<close>

lemma driver_error_order:
  assumes sample: "generate_noisy_sin_points rng 10 noise_level = Some (Arr x, Arr y)"
    and dec9: "spectral_decomposition (normal_matrix x 9) sp9"
    and pinv9: "pinv (normal_matrix x 9) = np_linalg_pinv default_rcond (normal_matrix x 9) sp9"
    and dec0: "spectral_decomposition (normal_matrix x 0) sp0"
    and pinv0: "pinv (normal_matrix x 0) = np_linalg_pinv default_rcond (normal_matrix x 0) sp0"
  shows "\<exists>e9 e0. fit_error pinv x y 9 = Some e9 \<and> fit_error pinv x y 0 = Some e0 \<and> e9 \<le> e0"
proof -
  have x: "x = driver_grid" and len: "length x = length y"
    using driver_sample [OF sample] by (simp_all add: driver_grid_def)
  have "x \<noteq> []"
    by (simp add: x driver_grid_def)
  then have mp0: "moore_penrose (normal_matrix x 0) (pinv (normal_matrix x 0))"
    unfolding pinv0
    using dec0 by (intro np_linalg_pinv_exact degree_zero_singular_values_kept)
  have mp9: "moore_penrose (normal_matrix x 9) (pinv (normal_matrix x 9))"
    unfolding pinv9
    using dec9 by (intro np_linalg_pinv_exact driver_singular_values_kept) (simp_all add: x)
  show ?thesis
    using fit_error_monotone [where pinv = pinv and d = 0 and d' = 9, OF len _ mp0 mp9]
    by auto
qed




end
